theory Spec2Isabelle
  imports
    Complex_Main
    "HOL-Library.Char_ord"
    "HOL-Library.List_Lexorder"
    "HOL-Library.Product_Lexorder"
    "HOL-Library.Multiset"
    "HOL-Library.Word"
begin

unbundle bit_operations_syntax

section \<open>Strings as Python sees them\<close>

text \<open>
  Strings are byte strings (\<^typ>\<open>string\<close>); the model covers ASCII file names, on which
  Python's \<open>str.lower\<close>, \<open>str.isdigit\<close>, the regular expression class \<open>\D\<close> and
  \<open>int\<close> agree with the definitions below. String comparison is code point order, which
  is the lexicographic order of \<^typ>\<open>char list\<close>.
\<close>

definition is_digit :: "char \<Rightarrow> bool" where
  "is_digit c \<longleftrightarrow> CHR ''0'' \<le> c \<and> c \<le> CHR ''9''"

definition isdigit :: "string \<Rightarrow> bool" where
  \<comment> \<open>\<open>str.isdigit()\<close>: false on the empty string\<close>
  "isdigit s \<longleftrightarrow> s \<noteq> [] \<and> list_all is_digit s"

definition lower_char :: "char \<Rightarrow> char" where
  "lower_char c =
     (if CHR ''A'' \<le> c \<and> c \<le> CHR ''Z'' then char_of (of_char c + (32::nat)) else c)"

definition lower :: "string \<Rightarrow> string" where
  "lower s = map lower_char s"

definition replace_char :: "char \<Rightarrow> char \<Rightarrow> string \<Rightarrow> string" where
  \<comment> \<open>\<open>s.replace(a, b)\<close> for one-character \<open>a\<close> and \<open>b\<close>\<close>
  "replace_char a b s = map (\<lambda>c. if c = a then b else c) s"

definition startswith :: "string \<Rightarrow> string \<Rightarrow> bool" where
  "startswith s p \<longleftrightarrow> take (length p) s = p"

definition digit_val :: "char \<Rightarrow> int" where
  "digit_val c = int (of_char c) - 48"

definition int_of_digits :: "string \<Rightarrow> int" where
  \<comment> \<open>\<open>int(s)\<close> on a non-empty run of ASCII digits\<close>
  "int_of_digits s = foldl (\<lambda>a c. 10 * a + digit_val c) 0 s"

definition digit_char :: "nat \<Rightarrow> char" where
  "digit_char d = char_of (48 + d)"

function str_nat :: "nat \<Rightarrow> string" where
  "str_nat n = (if n < 10 then [digit_char n] else str_nat (n div 10) @ [digit_char (n mod 10)])"
  by pat_completeness auto
termination
  by (relation "measure id") auto

declare str_nat.simps [simp del]

definition str_int :: "int \<Rightarrow> string" where
  \<comment> \<open>\<open>str(i)\<close>, also what an f-string renders for \<open>{i}\<close>\<close>
  "str_int i = (if i < 0 then CHR ''-'' # str_nat (nat (- i)) else str_nat (nat i))"

definition fmt_02d :: "int \<Rightarrow> string" where
  \<comment> \<open>the format \<open>{i:02d}\<close>: zero padding to width 2, after the sign\<close>
  "fmt_02d i =
     (if i < 0 then CHR ''-'' # replicate (1 - length (str_nat (nat (- i)))) CHR ''0'' @ str_nat (nat (- i))
      else replicate (2 - length (str_nat (nat i))) CHR ''0'' @ str_nat (nat i))"

section \<open>Relative paths\<close>

text \<open>
  A relative \<open>pathlib.Path\<close> is its tuple of parts. \<open>Path(s)\<close> splits at \<open>/\<close> and drops empty
  and \<open>.\<close> components; \<open>str(p)\<close> joins the parts with \<open>/\<close> (\<open>.\<close> for the empty path).
  The platform is POSIX: \<open>os.sep\<close> is \<open>/\<close>.
\<close>

type_synonym path = "string list"

definition os_sep :: char where
  "os_sep = CHR ''/''"

fun split_on :: "char \<Rightarrow> string \<Rightarrow> string \<Rightarrow> string list" where
  "split_on sep cur [] = [cur]"
| "split_on sep cur (c # cs) =
     (if c = sep then cur # split_on sep [] cs else split_on sep (cur @ [c]) cs)"

definition Path :: "string \<Rightarrow> path" where
  "Path s = filter (\<lambda>seg. seg \<noteq> [] \<and> seg \<noteq> ''.'') (split_on CHR ''/'' [] s)"

fun join_parts :: "path \<Rightarrow> string" where
  "join_parts [] = []"
| "join_parts [seg] = seg"
| "join_parts (seg # segs) = seg @ CHR ''/'' # join_parts segs"

definition str_path :: "path \<Rightarrow> string" where
  "str_path p = (if p = [] then ''.'' else join_parts p)"

definition path_name :: "path \<Rightarrow> string" where
  \<comment> \<open>\<open>p.name\<close>: the last part, empty for the empty path\<close>
  "path_name p = (if p = [] then [] else last p)"

definition path_parent :: "path \<Rightarrow> path" where
  \<comment> \<open>\<open>p.parent\<close>: the empty path is its own parent\<close>
  "path_parent p = butlast p"

section \<open>Date heuristics\<close>

subsection \<open>\<open>guess_date_hint\<close>\<close>

fun guess_date_hint_loop :: "string list \<Rightarrow> string option" where
  "guess_date_hint_loop [] = None"
| "guess_date_hint_loop (part # rest) =
     (let normalized = replace_char CHR ''-'' CHR ''_'' part in
      if length normalized = 4 \<and> isdigit normalized then Some normalized
      else if length normalized \<ge> 8 \<and> isdigit (take 4 normalized) then
        (let cleaned = replace_char CHR ''_'' CHR ''-'' normalized in
         if count_list cleaned CHR ''-'' \<ge> 2 then Some cleaned
         else guess_date_hint_loop rest)
      else guess_date_hint_loop rest)"

definition guess_date_hint :: "path \<Rightarrow> string option" where
  \<comment> \<open>the loop runs over \<open>relative_path.parts[::-1]\<close>\<close>
  "guess_date_hint relative_path = guess_date_hint_loop (rev relative_path)"

subsection \<open>\<open>_extract_date_value\<close>\<close>

fun re_split_nondigits :: "bool \<Rightarrow> string \<Rightarrow> string \<Rightarrow> string list" where
  \<comment> \<open>\<open>re.split(r"\D+", text)\<close>: the flag says that the scan is inside a separator run\<close>
  "re_split_nondigits in_sep cur [] = [cur]"
| "re_split_nondigits in_sep cur (c # cs) =
     (if is_digit c then re_split_nondigits False (cur @ [c]) cs
      else if in_sep then re_split_nondigits True cur cs
      else cur # re_split_nondigits True [] cs)"

definition date_tokens :: "string \<Rightarrow> string list" where
  \<comment> \<open>\<open>[tok for tok in re.split(r"\D+", text) if tok]\<close>\<close>
  "date_tokens text = filter (\<lambda>tok. tok \<noteq> []) (re_split_nondigits False [] text)"

function extract_date_loop :: "string list \<Rightarrow> nat \<Rightarrow> bool \<times> int" where
  "extract_date_loop tokens idx =
     (if idx < length tokens then
        (let token = tokens ! idx in
         if length token = 4 \<and> (startswith token ''19'' \<or> startswith token ''20'') then
           (let year = token;
                (month, day) =
                  (if idx + 1 < length tokens \<and> length (tokens ! (idx + 1)) = 2 then
                     (let candidate_month = int_of_digits (tokens ! (idx + 1)) in
                      if 1 \<le> candidate_month \<and> candidate_month \<le> 12 then
                        (fmt_02d candidate_month,
                         if idx + 2 < length tokens \<and> length (tokens ! (idx + 2)) = 2 then
                           (let candidate_day = int_of_digits (tokens ! (idx + 2)) in
                            if 1 \<le> candidate_day \<and> candidate_day \<le> 31
                            then fmt_02d candidate_day else ''00'')
                         else ''00'')
                      else (''00'', ''00''))
                   else (''00'', ''00''))
            in (True, int_of_digits (year @ month @ day)))
         else extract_date_loop tokens (idx + 1))
      else (False, 0))"
  by pat_completeness auto
termination
  by (relation "measure (\<lambda>(tokens, idx). length tokens - idx)") auto

declare extract_date_loop.simps [simp del]

definition extract_date_value :: "path \<Rightarrow> bool \<times> int" where
  "extract_date_value rel_path = extract_date_loop (date_tokens (str_path rel_path)) 0"

subsection \<open>The date heuristics as the specification words them\<close>

text \<open>The segments that \<open>guess_date_hint\<close> accepts, and the label it returns for one.\<close>

definition is_separator :: "char \<Rightarrow> bool" where
  "is_separator c \<longleftrightarrow> c = CHR ''-'' \<or> c = CHR ''_''"

definition date_hint_segment :: "string \<Rightarrow> bool" where
  "date_hint_segment seg \<longleftrightarrow>
     (length seg = 4 \<and> isdigit seg) \<or>
     (length seg \<ge> 8 \<and> isdigit (take 4 seg) \<and> length (filter is_separator seg) \<ge> 2)"

definition hint_label :: "string \<Rightarrow> string" where
  "hint_label seg = replace_char CHR ''_'' CHR ''-'' seg"

text \<open>
  The specification's reading of the same scan: a bare 4-digit year, or a token of at least 8
  characters whose first 4 are digits, with no condition on separators.
\<close>

definition claimed_hint_segment :: "string \<Rightarrow> bool" where
  "claimed_hint_segment seg \<longleftrightarrow>
     (length seg = 4 \<and> isdigit seg) \<or> (length seg \<ge> 8 \<and> isdigit (take 4 seg))"

definition claimed_date_hint :: "path \<Rightarrow> string option" where
  "claimed_date_hint p = map_option hint_label (find claimed_hint_segment (rev p))"

text \<open>
  The specification's reading of \<open>_extract_date_value\<close>: the maximal digit runs of the text,
  the first year token among them, a valid month after it and a valid day after the month,
  combined arithmetically into \<open>YYYYMMDD\<close>.
\<close>

function maximal_digit_runs :: "string \<Rightarrow> string list" where
  "maximal_digit_runs s =
     (case dropWhile (\<lambda>c. \<not> is_digit c) s of
        [] \<Rightarrow> []
      | d # ds \<Rightarrow> takeWhile is_digit (d # ds) # maximal_digit_runs (dropWhile is_digit ds))"
  by pat_completeness auto
termination
proof (relation "measure length", simp, goal_cases)
  case (1 s d ds)
  have "length (dropWhile is_digit ds) \<le> length ds"
    by (rule length_dropWhile_le)
  moreover have "length (d # ds) \<le> length s"
    using length_dropWhile_le [of "\<lambda>c. \<not> is_digit c" s] 1 by simp
  ultimately show ?case by simp
qed

declare maximal_digit_runs.simps [simp del]

definition year_token :: "string \<Rightarrow> bool" where
  "year_token t \<longleftrightarrow> length t = 4 \<and> (take 2 t = ''19'' \<or> take 2 t = ''20'')"

definition valid_component :: "int \<Rightarrow> string \<Rightarrow> bool" where
  "valid_component hi t \<longleftrightarrow> length t = 2 \<and> 1 \<le> int_of_digits t \<and> int_of_digits t \<le> hi"

definition month_component :: "string list \<Rightarrow> int" where
  "month_component rest =
     (case rest of m # _ \<Rightarrow> if valid_component 12 m then int_of_digits m else 0 | [] \<Rightarrow> 0)"

definition day_component :: "string list \<Rightarrow> int" where
  "day_component rest =
     (case rest of
        m # d # _ \<Rightarrow> if valid_component 12 m \<and> valid_component 31 d then int_of_digits d else 0
      | _ \<Rightarrow> 0)"

fun date_of_tokens :: "string list \<Rightarrow> bool \<times> int" where
  "date_of_tokens [] = (False, 0)"
| "date_of_tokens (t # rest) =
     (if year_token t
      then (True, int_of_digits t * 10000 + month_component rest * 100 + day_component rest)
      else date_of_tokens rest)"

definition spec_extract_date_value :: "string \<Rightarrow> bool \<times> int" where
  "spec_extract_date_value txt = date_of_tokens (maximal_digit_runs txt)"

section \<open>The file tree\<close>

text \<open>
  A directory is the list of its entries in the order the operating system lists them;
  a file carries its size in bytes. Paths below the image root are lists of names, the empty
  list being the root itself. The disk maps each root directory to the tree below it.
\<close>

datatype entry = File nat | Dir "(string \<times> entry) list"

type_synonym disk = "string \<Rightarrow> entry"

datatype error = ValueError string | FileNotFoundError | NotADirectoryError | IndexError

fun is_dir :: "entry \<Rightarrow> bool" where
  "is_dir (Dir _) = True"
| "is_dir (File _) = False"

fun is_file :: "entry \<Rightarrow> bool" where
  "is_file (File _) = True"
| "is_file (Dir _) = False"

fun lookup :: "entry \<Rightarrow> path \<Rightarrow> entry option" where
  "lookup e [] = Some e"
| "lookup (File _) (n # ns) = None"
| "lookup (Dir es) (n # ns) = (case map_of es n of None \<Rightarrow> None | Some e \<Rightarrow> lookup e ns)"

definition SUPPORTED_EXTENSIONS :: "string list" where
  "SUPPORTED_EXTENSIONS =
     [''.jpg'', ''.jpeg'', ''.png'', ''.gif'', ''.bmp'', ''.tif'', ''.tiff'', ''.webp'']"

definition IGNORED_DIRECTORIES :: "string list" where
  "IGNORED_DIRECTORIES = [''.Trash-1000'']"

definition is_ignored_name :: "string \<Rightarrow> bool" where
  "is_ignored_name name \<longleftrightarrow> name \<in> set IGNORED_DIRECTORIES \<or> startswith name ''.''"

definition rfind :: "char \<Rightarrow> string \<Rightarrow> nat option" where
  \<comment> \<open>\<open>s.rfind(c)\<close>, with \<open>None\<close> for \<open>-1\<close>\<close>
  "rfind c s =
     (if c \<in> set s then Some (length s - 1 - length (takeWhile (\<lambda>d. d \<noteq> c) (rev s))) else None)"

definition suffix :: "string \<Rightarrow> string" where
  \<comment> \<open>\<open>Path(name).suffix\<close> for a file name: from the last dot, unless the dot is first or last\<close>
  "suffix name =
     (case rfind CHR ''.'' name of
        None \<Rightarrow> []
      | Some i \<Rightarrow> if 0 < i \<and> i < length name - 1 then drop i name else [])"

definition is_image_name :: "string \<Rightarrow> bool" where
  "is_image_name name \<longleftrightarrow> lower (suffix name) \<in> set (map lower SUPPORTED_EXTENSIONS)"

definition iter_directories :: "entry \<Rightarrow> path \<Rightarrow> error + path list" where
  "iter_directories tree p =
     (case lookup tree p of
        None \<Rightarrow> Inl FileNotFoundError
      | Some (File _) \<Rightarrow> Inl NotADirectoryError
      | Some (Dir es) \<Rightarrow>
          Inr (map (\<lambda>(name, e). p @ [name])
                 (filter (\<lambda>(name, e). is_dir e \<and> \<not> is_ignored_name name)
                    (sort_key (\<lambda>(name, e). lower name) es))))"

definition iter_images :: "entry \<Rightarrow> path \<Rightarrow> error + path list" where
  "iter_images tree p =
     (case lookup tree p of
        None \<Rightarrow> Inl FileNotFoundError
      | Some (File _) \<Rightarrow> Inl NotADirectoryError
      | Some (Dir es) \<Rightarrow>
          Inr (map (\<lambda>(name, e). p @ [name])
                 (filter (\<lambda>(name, e). is_file e \<and> is_image_name name)
                    (sort_key (\<lambda>(name, e). lower name) es))))"

text \<open>
  \<open>os.walk\<close>, top down, with the pruning and the ordering that \<open>iter_images_recursive\<close>
  applies in place: the images of a directory in case-insensitive name order, then its
  subdirectories, ignored names removed, in case-insensitive name order. A path that is not a
  directory yields nothing (\<open>os.walk\<close> swallows the listing error).
\<close>

function walk_images :: "path \<Rightarrow> entry \<Rightarrow> path list" where
  "walk_images current_root (File sz) = []"
| "walk_images current_root (Dir es) =
     (let dirs = sort_key (\<lambda>(name, e). lower name)
                   (filter (\<lambda>(name, e). is_dir e \<and> \<not> is_ignored_name name) es);
          files = map fst (filter (\<lambda>(name, e). \<not> is_dir e) es)
      in map (\<lambda>name. current_root @ [name])
             (filter is_image_name (sort_key lower files))
         @ concat (map (\<lambda>(name, e). walk_images (current_root @ [name]) e) dirs))"
  by pat_completeness auto
termination
proof (relation "measure (\<lambda>(current_root, e). size e)", simp, goal_cases)
  case (1 current_root es dirs files x name e)
  then have "(name, e) \<in> set es" by auto
  then have "size e \<le> size_list (size_prod (\<lambda>_. 0) size) es"
    by (induction es) auto
  then show ?case by simp
qed

definition iter_images_recursive :: "entry \<Rightarrow> path \<Rightarrow> int option \<Rightarrow> path list" where
  \<comment> \<open>the generator stops after a yield once \<open>count >= limit\<close>, so it yields at least once\<close>
  "iter_images_recursive tree p limit =
     (let found = (case lookup tree p of None \<Rightarrow> [] | Some e \<Rightarrow> walk_images p e)
      in case limit of None \<Rightarrow> found | Some n \<Rightarrow> take (nat (max 1 n)) found)"

definition relative_str :: "path \<Rightarrow> string" where
  \<comment> \<open>\<open>str(image_path.relative_to(root)).replace(os.sep, "/")\<close>\<close>
  "relative_str p = replace_char os_sep CHR ''/'' (str_path p)"

section \<open>The index cache\<close>

definition IMAGE_CACHE_TTL_SECONDS :: real where
  "IMAGE_CACHE_TTL_SECONDS = 30"

record image_item =
  item_name :: string
  item_path :: string
  item_dateHint :: string
  item_dateValue :: int
  item_hasDate :: bool

text \<open>
  Of the hierarchy, the model keeps \<open>images_by_group\<close>, a dictionary in insertion order.
  The group summaries \<open>top_groups\<close> (labels, counts, newest dates) are computed beside it
  without influence on it, and no property below reads them.
\<close>

record hierarchy =
  images_by_group :: "(string \<times> image_item list) list"

record image_cache =
  ic_root :: "string option"
  ic_generated :: real
  ic_paths :: "string list"
  ic_hierarchy_root :: "string option"
  ic_hierarchy_generated :: real
  ic_hierarchy :: "hierarchy option"

definition IMAGE_CACHE :: image_cache where
  \<comment> \<open>the module-level initial value of \<open>_IMAGE_CACHE\<close>\<close>
  "IMAGE_CACHE = \<lparr>ic_root = None, ic_generated = 0, ic_paths = [],
     ic_hierarchy_root = None, ic_hierarchy_generated = 0, ic_hierarchy = None\<rparr>"

subsection \<open>\<open>sorted_image_paths\<close>\<close>

fun split_dated :: "string list \<Rightarrow> (int \<times> string) list \<times> string list" where
  \<comment> \<open>the scan loop: \<open>dated.append((value, relative))\<close> or \<open>undated.append(relative)\<close>\<close>
  "split_dated [] = ([], [])"
| "split_dated (relative # rest) =
     (let (has_date, val) = extract_date_value (Path relative);
          (dated, undated) = split_dated rest
      in if has_date then ((val, relative) # dated, undated) else (dated, relative # undated))"

definition scan_paths :: "entry \<Rightarrow> string list" where
  "scan_paths tree = map relative_str (iter_images_recursive tree [] None)"

definition build_paths :: "string list \<Rightarrow> string list" where
  "build_paths relatives =
     (let (dated, undated) = split_dated relatives;
          dated = sort_key (\<lambda>item. (fst item, lower (snd item))) dated;
          undated = sort_key lower undated
      in map snd dated @ undated)"

definition serve_paths :: "string list \<Rightarrow> string \<Rightarrow> string list" where
  \<comment> \<open>lines 365 to 377: the cached list as it is, or its dated block reversed\<close>
  "serve_paths cache_paths order =
     (if order = ''asc'' then cache_paths
      else
        (let dated_paths = filter (\<lambda>p. fst (extract_date_value (Path p))) cache_paths;
             undated_paths = filter (\<lambda>p. \<not> fst (extract_date_value (Path p))) cache_paths
         in rev dated_paths @ undated_paths))"

definition sorted_image_paths ::
  "disk \<Rightarrow> real \<Rightarrow> image_cache \<Rightarrow> string \<Rightarrow> string \<Rightarrow> string list \<times> image_cache" where
  "sorted_image_paths disk now cache root_path order =
     (if ic_root cache = Some root_path \<and> now - ic_generated cache < IMAGE_CACHE_TTL_SECONDS
      then (serve_paths (ic_paths cache) order, cache)
      else
        (let paths = build_paths (scan_paths (disk root_path))
         in (serve_paths paths order,
             cache\<lparr>ic_root := Some root_path, ic_generated := now, ic_paths := paths\<rparr>)))"

subsection \<open>\<open>build_hierarchy\<close>\<close>

definition or_else :: "string option \<Rightarrow> string \<Rightarrow> string" where
  \<comment> \<open>Python's \<open>a or b\<close> for an optional string \<open>a\<close>: \<open>None\<close> and the empty string are false\<close>
  "or_else a b = (case a of None \<Rightarrow> b | Some s \<Rightarrow> if s \<noteq> [] then s else b)"

fun setdefault_append ::
  "string \<Rightarrow> image_item \<Rightarrow> (string \<times> image_item list) list \<Rightarrow> (string \<times> image_item list) list" where
  \<comment> \<open>\<open>images_by_group.setdefault(key, []).append(item)\<close>\<close>
  "setdefault_append k v [] = [(k, [v])]"
| "setdefault_append k v ((k', vs) # rest) =
     (if k' = k then (k', vs @ [v]) # rest else (k', vs) # setdefault_append k v rest)"

definition hierarchy_scan_step ::
  "(string \<times> image_item list) list \<Rightarrow> string \<Rightarrow> (string \<times> image_item list) list" where
  \<comment> \<open>one turn of the scan loop, lines 445 to 471\<close>
  "hierarchy_scan_step by_group relative =
     (let rel_path = Path relative; parts = rel_path in
      if parts = [] then by_group
      else
        (let top_key = parts ! 0;
             top_label = top_key;
             (subgroup_key, subgroup_label) =
               (if length parts \<ge> 2 then (parts ! 0 @ ''/'' @ parts ! 1, parts ! 1)
                else (top_key, top_label));
             (has_date, date_val) = extract_date_value rel_path;
             date_hint = or_else (guess_date_hint rel_path) subgroup_label;
             image_item = \<lparr>item_name = path_name rel_path, item_path = relative,
               item_dateHint = date_hint, item_dateValue = date_val, item_hasDate = has_date\<rparr>
         in setdefault_append subgroup_key image_item by_group))"

definition group_sort_key :: "image_item \<Rightarrow> int \<times> int \<times> string" where
  "group_sort_key item =
     (if item_hasDate item then 1 else 0, item_dateValue item, lower (item_path item))"

definition sort_reverse :: "('a \<Rightarrow> 'k::linorder) \<Rightarrow> 'a list \<Rightarrow> 'a list" where
  \<comment> \<open>\<open>list.sort(key=f, reverse=True)\<close>: reverse, sort stably, reverse again, so that items
      with equal keys keep their order\<close>
  "sort_reverse f xs = rev (sort_key f (rev xs))"

definition scan_hierarchy :: "string list \<Rightarrow> hierarchy" where
  "scan_hierarchy relatives =
     (let by_group = foldl hierarchy_scan_step [] relatives
      in \<lparr>images_by_group =
            map (\<lambda>(group_key, image_list). (group_key, sort_reverse group_sort_key image_list))
              by_group\<rparr>)"

definition build_hierarchy ::
  "disk \<Rightarrow> real \<Rightarrow> image_cache \<Rightarrow> string \<Rightarrow> hierarchy \<times> image_cache" where
  "build_hierarchy disk now cache root_path =
     (let rebuilt = scan_hierarchy (scan_paths (disk root_path));
          miss = (rebuilt, cache\<lparr>ic_hierarchy_root := Some root_path,
                    ic_hierarchy_generated := now, ic_hierarchy := Some rebuilt\<rparr>)
      in case ic_hierarchy cache of
           None \<Rightarrow> miss
         | Some cached_hierarchy \<Rightarrow>
             if ic_hierarchy_root cache = Some root_path
                \<and> now - ic_hierarchy_generated cache < IMAGE_CACHE_TTL_SECONDS
             then (cached_hierarchy, cache) else miss)"

section \<open>Pagination\<close>

record image_ref =
  ref_name :: string
  ref_path :: string
  ref_dateHint :: string

record timeline_payload =
  sections :: "(string option \<times> image_ref list) list"
  tl_nextCursor :: "string option"

record group_payload =
  images :: "image_ref list"
  nextCursor :: "string option"

fun list_index :: "'a list \<Rightarrow> 'a \<Rightarrow> error + nat" where
  \<comment> \<open>\<open>xs.index(x)\<close>, which raises \<open>ValueError\<close> when \<open>x\<close> is absent\<close>
  "list_index [] x = Inl (ValueError ''is not in list'')"
| "list_index (y # ys) x =
     (if y = x then Inr 0
      else case list_index ys x of Inl e \<Rightarrow> Inl e | Inr i \<Rightarrow> Inr (Suc i))"

definition py_slice :: "'a list \<Rightarrow> int \<Rightarrow> int \<Rightarrow> 'a list" where
  \<comment> \<open>\<open>xs[i:j]\<close>: a negative bound counts from the end, and both are clamped to the list\<close>
  "py_slice xs i j =
     (let n = int (length xs);
          lo = (if i < 0 then max 0 (i + n) else min i n);
          hi = (if j < 0 then max 0 (j + n) else min j n)
      in if lo < hi then take (nat (hi - lo)) (drop (nat lo) xs) else [])"

subsection \<open>\<open>timeline_sections\<close>\<close>

definition timeline_start_index :: "string list \<Rightarrow> string option \<Rightarrow> nat" where
  \<comment> \<open>lines 387 to 393; \<open>if cursor:\<close> is false for \<open>None\<close> and for the empty string\<close>
  "timeline_start_index paths cursor =
     (case cursor of
        None \<Rightarrow> 0
      | Some c \<Rightarrow>
          if c \<noteq> [] then
            (let c = replace_char os_sep CHR ''/'' c
             in case list_index paths c of Inr i \<Rightarrow> i + 1 | Inl _ \<Rightarrow> 0)
          else 0)"

fun timeline_loop ::
  "string list \<Rightarrow> (string option \<times> image_ref list) list \<Rightarrow> string option \<Rightarrow> image_ref list
     \<Rightarrow> (string option \<times> image_ref list) list" where
  \<comment> \<open>lines 403 to 421, with the loop's three variables as arguments\<close>
  "timeline_loop [] secs current_label current_items =
     (if current_items \<noteq> [] then secs @ [(current_label, current_items)] else secs)"
| "timeline_loop (rel_path_str # rest) secs current_label current_items =
     (let rel_path = Path rel_path_str;
          hint = guess_date_hint rel_path;
          label = or_else hint (or_else (Some (path_name (path_parent rel_path))) ''Unknown'');
          (secs, current_items) =
            (if Some label \<noteq> current_label
             then (if current_items \<noteq> [] then secs @ [(current_label, current_items)] else secs, [])
             else (secs, current_items));
          current_items = current_items @
            [\<lparr>ref_name = path_name rel_path, ref_path = rel_path_str,
              ref_dateHint = or_else hint label\<rparr>]
      in timeline_loop rest secs (Some label) current_items)"

definition timeline_page :: "string list \<Rightarrow> string option \<Rightarrow> int \<Rightarrow> timeline_payload" where
  \<comment> \<open>lines 384 to 427, on the list that \<open>sorted_image_paths\<close> returned\<close>
  "timeline_page paths cursor limit =
     (if paths = [] then \<lparr>sections = [], tl_nextCursor = None\<rparr>
      else
        (let start_index = timeline_start_index paths cursor;
             slice_paths = py_slice paths (int start_index) (int start_index + limit)
         in if slice_paths = [] then \<lparr>sections = [], tl_nextCursor = None\<rparr>
            else
              \<lparr>sections = timeline_loop slice_paths [] None [],
               tl_nextCursor =
                 (if start_index + length slice_paths < length paths
                  then Some (last slice_paths) else None)\<rparr>))"

definition timeline_sections ::
  "disk \<Rightarrow> real \<Rightarrow> image_cache \<Rightarrow> string \<Rightarrow> string option \<Rightarrow> int \<Rightarrow> string
     \<Rightarrow> timeline_payload \<times> image_cache" where
  "timeline_sections disk now cache root_path cursor limit order =
     (let (paths, cache) = sorted_image_paths disk now cache root_path order
      in (timeline_page paths cursor limit, cache))"

subsection \<open>\<open>group_images_payload\<close>\<close>

fun cursor_scan :: "image_item list \<Rightarrow> string \<Rightarrow> nat \<Rightarrow> nat" where
  \<comment> \<open>lines 616 to 619: \<open>start_index\<close> stays 0 when the loop ends without a match\<close>
  "cursor_scan [] cursor idx = 0"
| "cursor_scan (item # rest) cursor idx =
     (if item_path item = cursor then idx + 1 else cursor_scan rest cursor (idx + 1))"

definition group_start_index :: "image_item list \<Rightarrow> string option \<Rightarrow> nat" where
  "group_start_index sequence cursor =
     (case cursor of
        None \<Rightarrow> 0
      | Some c \<Rightarrow>
          if c \<noteq> [] then cursor_scan sequence (replace_char os_sep CHR ''/'' c) 0 else 0)"

definition group_page :: "image_item list \<Rightarrow> string option \<Rightarrow> int \<Rightarrow> group_payload" where
  \<comment> \<open>lines 613 to 638, on the ordered sequence of one group\<close>
  "group_page sequence cursor limit =
     (let start_index = group_start_index sequence cursor;
          slice_items = py_slice sequence (int start_index) (int start_index + limit)
      in if slice_items = [] then \<lparr>images = [], nextCursor = None\<rparr>
         else
           \<lparr>images = map (\<lambda>item. \<lparr>ref_name = item_name item, ref_path = item_path item,
                                   ref_dateHint = item_dateHint item\<rparr>) slice_items,
            nextCursor =
              (if start_index + length slice_items < length sequence
               then Some (item_path (last slice_items)) else None)\<rparr>)"

definition group_images_payload ::
  "disk \<Rightarrow> real \<Rightarrow> image_cache \<Rightarrow> string \<Rightarrow> string \<Rightarrow> string option \<Rightarrow> int \<Rightarrow> string
     \<Rightarrow> group_payload \<times> image_cache" where
  "group_images_payload disk now cache root_path group_key cursor limit order =
     (let (data, cache) = build_hierarchy disk now cache root_path
      in case map_of (images_by_group data) group_key of
           None \<Rightarrow> (\<lparr>images = [], nextCursor = None\<rparr>, cache)
         | Some imgs \<Rightarrow>
             (let sequence = (if order = ''desc'' then imgs else rev imgs)
              in (group_page sequence cursor limit, cache)))"

section \<open>The request handlers of the two paginated endpoints\<close>

text \<open>
  \<open>int(s)\<close> on a string, its characters read as code points below 256. White space around
  the number is skipped; for \<open>int\<close> that is the six characters of C's \<open>isspace\<close> and the two
  blanks \<open>U+0085\<close> and \<open>U+00A0\<close>, which \<open>int\<close> turns into spaces first. The separators
  \<open>U+001C\<close> to \<open>U+001F\<close>, white space for \<open>str.strip\<close>, are not skipped. One sign is
  allowed, and the digits may be grouped by single underscores. The digits are scanned first,
  and a well-grouped run of more than \<open>sys.int_max_str_digits\<close> digits (4300 unless
  configured otherwise) is refused before the rest of the string is looked at. Anything else
  raises \<open>ValueError\<close> as well.
\<close>

definition is_space :: "char \<Rightarrow> bool" where
  "is_space c \<longleftrightarrow>
     c \<in> set [CHR 0x09, CHR 0x0A, CHR 0x0B, CHR 0x0C, CHR 0x0D, CHR 0x20, CHR 0x85, CHR 0xA0]"

definition strip :: "string \<Rightarrow> string" where
  \<comment> \<open>the white space that \<open>int\<close> skips before the sign and after the digits\<close>
  "strip s = rev (dropWhile is_space (rev (dropWhile is_space s)))"

fun grouped_digits :: "string \<Rightarrow> bool" where
  "grouped_digits [] = False"
| "grouped_digits [c] = is_digit c"
| "grouped_digits (c # d # rest) =
     (is_digit c \<and> (if d = CHR ''_'' then grouped_digits rest else grouped_digits (d # rest)))"

definition int_max_str_digits :: nat where
  "int_max_str_digits = 4300"

definition py_int :: "string \<Rightarrow> error + int" where
  "py_int s =
     (let t = strip s;
          (negative, body) =
            (case t of
               [] \<Rightarrow> (False, [])
             | c # r \<Rightarrow> if c = CHR ''-'' then (True, r)
                        else if c = CHR ''+'' then (False, r) else (False, t));
          run = takeWhile (\<lambda>c. is_digit c \<or> c = CHR ''_'') body
      in if grouped_digits run \<and> int_max_str_digits < length (filter is_digit run)
         then Inl (ValueError ''Exceeds the limit (4300 digits) for integer string conversion'')
         else if grouped_digits body
         then Inr ((if negative then - 1 else 1) * int_of_digits (filter is_digit body))
         else Inl (ValueError ''invalid literal for int() with base 10''))"

type_synonym params = "string \<Rightarrow> string list option"

definition first_item :: "'a list \<Rightarrow> error + 'a" where
  \<comment> \<open>\<open>xs[0]\<close>\<close>
  "first_item xs = (case xs of [] \<Rightarrow> Inl IndexError | x # _ \<Rightarrow> Inr x)"

definition params_get :: "params \<Rightarrow> string \<Rightarrow> string list \<Rightarrow> string list" where
  \<comment> \<open>\<open>params.get(key, default)\<close>\<close>
  "params_get ps key dflt = (case ps key of None \<Rightarrow> dflt | Some v \<Rightarrow> v)"

definition params_get_cursor :: "params \<Rightarrow> string option list" where
  \<comment> \<open>\<open>params.get("cursor", [None])\<close>\<close>
  "params_get_cursor ps = (case ps ''cursor'' of None \<Rightarrow> [None] | Some v \<Rightarrow> map Some v)"

definition api_timeline ::
  "disk \<Rightarrow> real \<Rightarrow> image_cache \<Rightarrow> string \<Rightarrow> params \<Rightarrow> (error + timeline_payload) \<times> image_cache" where
  "api_timeline disk now cache root_path ps =
     (case first_item (params_get_cursor ps) of
        Inl e \<Rightarrow> (Inl e, cache)
      | Inr cursor \<Rightarrow>
     (case first_item (params_get ps ''limit'' ['''']) of
        Inl e \<Rightarrow> (Inl e, cache)
      | Inr limit_str \<Rightarrow>
     (case (if limit_str \<noteq> [] then py_int limit_str else Inr 120) of
        Inl e \<Rightarrow> (Inl (ValueError ''Invalid limit''), cache)
      | Inr limit \<Rightarrow>
     (let limit = max 20 (min 500 limit) in
      case first_item (params_get ps ''order'' [''desc'']) of
        Inl e \<Rightarrow> (Inl e, cache)
      | Inr order \<Rightarrow>
     (let order = lower order;
          order = (if order \<notin> {''asc'', ''desc''} then ''desc'' else order);
          (payload, cache) = timeline_sections disk now cache root_path cursor limit order
      in (Inr payload, cache))))))"

definition api_group_images ::
  "disk \<Rightarrow> real \<Rightarrow> image_cache \<Rightarrow> string \<Rightarrow> params \<Rightarrow> (error + group_payload) \<times> image_cache" where
  "api_group_images disk now cache root_path ps =
     (case first_item (params_get ps ''group'' ['''']) of
        Inl e \<Rightarrow> (Inl e, cache)
      | Inr group_key \<Rightarrow>
     (if group_key = [] then (Inl (ValueError ''Missing group key''), cache) else
     (case first_item (params_get_cursor ps) of
        Inl e \<Rightarrow> (Inl e, cache)
      | Inr cursor \<Rightarrow>
     (case first_item (params_get ps ''limit'' ['''']) of
        Inl e \<Rightarrow> (Inl e, cache)
      | Inr limit_value \<Rightarrow>
     (case (if limit_value \<noteq> [] then py_int limit_value else Inr 120) of
        Inl e \<Rightarrow> (Inl (ValueError ''Invalid limit''), cache)
      | Inr limit \<Rightarrow>
     (let limit = max 20 (min 500 limit) in
      case first_item (params_get ps ''order'' [''desc'']) of
        Inl e \<Rightarrow> (Inl e, cache)
      | Inr order \<Rightarrow>
     (let order = lower order;
          order = (if order \<notin> {''asc'', ''desc''} then ''desc'' else order);
          (payload, cache) =
             group_images_payload disk now cache root_path group_key cursor limit order
      in (Inr payload, cache))))))))"

section \<open>Directory listings\<close>

definition first_image_in_tree :: "entry \<Rightarrow> path \<Rightarrow> path option" where
  "first_image_in_tree tree p =
     (case iter_images_recursive tree p (Some 1) of [] \<Rightarrow> None | image_path # _ \<Rightarrow> Some image_path)"

fun first_found :: "entry \<Rightarrow> path list \<Rightarrow> path option" where
  \<comment> \<open>\<open>for candidate in ...: found = first_image_in_tree(candidate); if found: return found\<close>\<close>
  "first_found tree [] = None"
| "first_found tree (candidate # rest) =
     (case first_image_in_tree tree candidate of
        Some found \<Rightarrow> Some found
      | None \<Rightarrow> first_found tree rest)"

definition index_or_minus_one :: "path list \<Rightarrow> path \<Rightarrow> int" where
  \<comment> \<open>\<open>try: i = xs.index(x)\<close>, \<open>except ValueError: i = -1\<close>\<close>
  "index_or_minus_one xs x = (case list_index xs x of Inr i \<Rightarrow> int i | Inl _ \<Rightarrow> - 1)"

text \<open>
  The target is a directory below the root, given by its path from the root; the root itself
  is the empty path, so \<open>target == root\<close> reads \<open>target = []\<close> and \<open>parent == root\<close> reads
  \<open>parent = []\<close>.
\<close>

function next_folder_first_image :: "entry \<Rightarrow> path \<Rightarrow> error + path option" where
  "next_folder_first_image tree target =
     (if target = [] then
        (case iter_directories tree [] of
           Inl e \<Rightarrow> Inl e
         | Inr candidates \<Rightarrow> Inr (first_found tree candidates))
      else
        (let parent = path_parent target in
         case iter_directories tree parent of
           Inl e \<Rightarrow> Inl e
         | Inr siblings \<Rightarrow>
             (let current_index = index_or_minus_one siblings target in
              case first_found tree (drop (nat (current_index + 1)) siblings) of
                Some found \<Rightarrow> Inr (Some found)
              | None \<Rightarrow>
                  if parent = [] then
                    (case iter_directories tree [] of
                       Inl e \<Rightarrow> Inl e
                     | Inr parent_siblings \<Rightarrow>
                         (let parent_index = index_or_minus_one parent_siblings parent
                          in Inr (first_found tree (drop (nat (parent_index + 1)) parent_siblings))))
                  else next_folder_first_image tree parent)))"
  by pat_completeness auto
termination
  by (relation "measure (\<lambda>(tree, target). length target)") (auto simp: path_parent_def)

declare next_folder_first_image.simps [simp del]

fun build_breadcrumbs_loop :: "path \<Rightarrow> path \<Rightarrow> (string \<times> string) list" where
  "build_breadcrumbs_loop accumulated [] = []"
| "build_breadcrumbs_loop accumulated (segment # rest) =
     (let accumulated = accumulated @ [segment]
      in (segment, relative_str accumulated) # build_breadcrumbs_loop accumulated rest)"

definition build_breadcrumbs :: "path \<Rightarrow> (string \<times> string) list" where
  "build_breadcrumbs target =
     (''Home'', []) # (if target = [] then [] else build_breadcrumbs_loop [] target)"

record directory_entry =
  dir_name :: string
  dir_path :: string
  dir_hasImages :: bool

record listed_image =
  img_name :: string
  img_path :: string
  img_dateHint :: "string option"
  img_size :: nat

record listing =
  list_path :: string
  breadcrumbs :: "(string \<times> string) list"
  directories :: "directory_entry list"
  list_images :: "listed_image list"
  totalImages :: nat
  nextFolderImage :: "string option"

fun stat_sizes :: "entry \<Rightarrow> path list \<Rightarrow> error + listed_image list" where
  \<comment> \<open>the loop over \<open>iter_images(target)\<close>; \<open>stat\<close> raises when the file is not there\<close>
  "stat_sizes tree [] = Inr []"
| "stat_sizes tree (image_path # rest) =
     (case lookup tree image_path of
        Some (File sz) \<Rightarrow>
          (case stat_sizes tree rest of
             Inl e \<Rightarrow> Inl e
           | Inr others \<Rightarrow>
               Inr (\<lparr>img_name = path_name image_path, img_path = relative_str image_path,
                      img_dateHint = guess_date_hint image_path, img_size = sz\<rparr> # others))
      | _ \<Rightarrow> Inl FileNotFoundError)"

definition directory_payload :: "entry \<Rightarrow> path \<Rightarrow> error + listing" where
  "directory_payload tree target =
     (let relative = (if target = [] then [] else relative_str target) in
      case iter_directories tree target of
        Inl e \<Rightarrow> Inl e
      | Inr dirs \<Rightarrow>
     (let directories = map (\<lambda>directory.
            \<lparr>dir_name = path_name directory, dir_path = relative_str directory,
             dir_hasImages = (iter_images_recursive tree directory (Some 1) \<noteq> [])\<rparr>) dirs in
      case iter_images tree target of
        Inl e \<Rightarrow> Inl e
      | Inr image_paths \<Rightarrow>
     (case stat_sizes tree image_paths of
        Inl e \<Rightarrow> Inl e
      | Inr imgs \<Rightarrow>
     (case next_folder_first_image tree target of
        Inl e \<Rightarrow> Inl e
      | Inr next_image \<Rightarrow>
          Inr \<lparr>list_path = relative, breadcrumbs = build_breadcrumbs target,
               directories = directories, list_images = imgs, totalImages = length imgs,
               nextFolderImage = map_option relative_str next_image\<rparr>))))"

section \<open>Thumbnail cache keys\<close>

subsection \<open>SHA-256, as \<open>hashlib.sha256(data).hexdigest()\<close> computes it\<close>

definition rotr :: "nat \<Rightarrow> 32 word \<Rightarrow> 32 word" where
  "rotr n x = word_rotr n x"

definition Ch :: "32 word \<Rightarrow> 32 word \<Rightarrow> 32 word \<Rightarrow> 32 word" where
  "Ch x y z = (x AND y) XOR (NOT x AND z)"

definition Maj :: "32 word \<Rightarrow> 32 word \<Rightarrow> 32 word \<Rightarrow> 32 word" where
  "Maj x y z = (x AND y) XOR (x AND z) XOR (y AND z)"

definition Sigma0 :: "32 word \<Rightarrow> 32 word" where
  "Sigma0 x = rotr 2 x XOR rotr 13 x XOR rotr 22 x"

definition Sigma1 :: "32 word \<Rightarrow> 32 word" where
  "Sigma1 x = rotr 6 x XOR rotr 11 x XOR rotr 25 x"

definition sigma0 :: "32 word \<Rightarrow> 32 word" where
  "sigma0 x = rotr 7 x XOR rotr 18 x XOR drop_bit 3 x"

definition sigma1 :: "32 word \<Rightarrow> 32 word" where
  "sigma1 x = rotr 17 x XOR rotr 19 x XOR drop_bit 10 x"

text \<open>
  The round constants and the initial state, in decimal: the first 32 bits of the fractional
  parts of the cube roots of the first 64 primes, and of the square roots of the first 8.
\<close>

definition sha256_K :: "32 word list" where
  "sha256_K =
    [1116352408, 1899447441, 3049323471, 3921009573, 961987163, 1508970993,
     2453635748, 2870763221, 3624381080, 310598401, 607225278, 1426881987,
     1925078388, 2162078206, 2614888103, 3248222580, 3835390401, 4022224774,
     264347078, 604807628, 770255983, 1249150122, 1555081692, 1996064986,
     2554220882, 2821834349, 2952996808, 3210313671, 3336571891, 3584528711,
     113926993, 338241895, 666307205, 773529912, 1294757372, 1396182291,
     1695183700, 1986661051, 2177026350, 2456956037, 2730485921, 2820302411,
     3259730800, 3345764771, 3516065817, 3600352804, 4094571909, 275423344,
     430227734, 506948616, 659060556, 883997877, 958139571, 1322822218,
     1537002063, 1747873779, 1955562222, 2024104815, 2227730452, 2361852424,
     2428436474, 2756734187, 3204031479, 3329325298]"

type_synonym sha_state =
  "32 word \<times> 32 word \<times> 32 word \<times> 32 word \<times> 32 word \<times> 32 word \<times> 32 word \<times> 32 word"

definition sha256_H0 :: sha_state where
  "sha256_H0 =
     (1779033703, 3144134277, 1013904242, 2773480762,
      1359893119, 2600822924, 528734635, 1541459225)"

definition sha256_pad :: "string \<Rightarrow> 32 word list" where
  \<comment> \<open>the message bytes, the byte 0x80, zero bytes up to 56 modulo 64, and the bit length
      as 8 bytes, most significant first\<close>
  "sha256_pad msg =
     (let n = length msg; bits = (word_of_nat (8 * n) :: 64 word)
      in map of_char msg @ [128] @ replicate ((64 - (n + 9) mod 64) mod 64) 0
         @ map (\<lambda>i. ucast (drop_bit (8 * (7 - i)) bits AND 255)) [0..<8])"

fun be_words :: "32 word list \<Rightarrow> 32 word list" where
  "be_words (a # b # c # d # rest) =
     (push_bit 24 a OR push_bit 16 b OR push_bit 8 c OR d) # be_words rest"
| "be_words _ = []"

definition sha256_blocks :: "string \<Rightarrow> 32 word list list" where
  "sha256_blocks msg =
     (let ws = be_words (sha256_pad msg)
      in map (\<lambda>i. take 16 (drop (16 * i) ws)) [0..<length ws div 16])"

fun extend_schedule :: "nat \<Rightarrow> 32 word list \<Rightarrow> 32 word list" where
  "extend_schedule 0 w = w"
| "extend_schedule (Suc n) w =
     (let t = length w
      in extend_schedule n
           (w @ [sigma1 (w ! (t - 2)) + w ! (t - 7) + sigma0 (w ! (t - 15)) + w ! (t - 16)]))"

definition sha256_round :: "sha_state \<Rightarrow> 32 word \<times> 32 word \<Rightarrow> sha_state" where
  "sha256_round st kw =
     (case st of (a, b, c, d, e, f, g, h) \<Rightarrow>
        (let t1 = h + Sigma1 e + Ch e f g + fst kw + snd kw;
             t2 = Sigma0 a + Maj a b c
         in (t1 + t2, a, b, c, d + t1, e, f, g)))"

definition sha256_compress :: "sha_state \<Rightarrow> 32 word list \<Rightarrow> sha_state" where
  "sha256_compress st block =
     (case (st, foldl sha256_round st (zip sha256_K (extend_schedule 48 block))) of
        ((a, b, c, d, e, f, g, h), (a', b', c', d', e', f', g', h')) \<Rightarrow>
          (a + a', b + b', c + c', d + d', e + e', f + f', g + g', h + h'))"

definition hex_digit :: "nat \<Rightarrow> char" where
  "hex_digit d = (if d < 10 then char_of (48 + d) else char_of (87 + d))"

definition hex_word :: "32 word \<Rightarrow> string" where
  "hex_word w = map (\<lambda>i. hex_digit (unat (drop_bit (4 * (7 - i)) w AND 15))) [0..<8]"

definition sha256_hexdigest :: "string \<Rightarrow> string" where
  "sha256_hexdigest msg =
     (case foldl sha256_compress sha256_H0 (sha256_blocks msg) of
        (a, b, c, d, e, f, g, h) \<Rightarrow>
          concat (map hex_word [a, b, c, d, e, f, g, h]))"

subsection \<open>\<open>thumbnail_cache_key\<close>\<close>

text \<open>
  The function receives the resolved absolute path of the image and what \<open>stat\<close> reports
  for it; both exist, since the handler has checked that the file is there.
\<close>

record stat_result =
  st_size :: int
  st_mtime_ns :: int

definition fingerprint :: "string \<Rightarrow> stat_result \<Rightarrow> int \<Rightarrow> string" where
  \<comment> \<open>the f-string \<open>{image_path.resolve()}|{stat.st_size}|{stat.st_mtime_ns}|{max_size}\<close>\<close>
  "fingerprint resolved stat max_size =
     resolved @ ''|'' @ str_int (st_size stat) @ ''|'' @ str_int (st_mtime_ns stat) @ ''|''
       @ str_int max_size"

definition thumbnail_cache_key :: "string \<Rightarrow> stat_result \<Rightarrow> int \<Rightarrow> string" where
  "thumbnail_cache_key resolved stat max_size =
     sha256_hexdigest (fingerprint resolved stat max_size)"

definition cache_key_of :: "string \<times> int \<times> int \<times> int \<Rightarrow> string" where
  \<comment> \<open>the key as one function of the four components
      (path, size in bytes, modification time in nanoseconds, requested dimension)\<close>
  "cache_key_of request =
     (case request of (resolved, size_bytes, mtime_ns, max_size) \<Rightarrow>
        thumbnail_cache_key resolved \<lparr>st_size = size_bytes, st_mtime_ns = mtime_ns\<rparr> max_size)"

section \<open>Vocabulary of the properties\<close>

definition has_date :: "string \<Rightarrow> bool" where
  "has_date p = fst (extract_date_value (Path p))"

definition date_value :: "string \<Rightarrow> int" where
  "date_value p = snd (extract_date_value (Path p))"

definition dated_block :: "string list \<Rightarrow> string list" where
  "dated_block ps = filter has_date ps"

definition undated_block :: "string list \<Rightarrow> string list" where
  "undated_block ps = filter (\<lambda>p. \<not> has_date p) ps"

text \<open>
  The snapshot does not change under the cache: whatever the cache holds for a root was
  built from the tree that the disk has for that root.
\<close>

definition cache_consistent :: "disk \<Rightarrow> image_cache \<Rightarrow> bool" where
  "cache_consistent disk cache \<longleftrightarrow>
     (case ic_root cache of
        None \<Rightarrow> True
      | Some r \<Rightarrow> ic_paths cache = build_paths (scan_paths (disk r))) \<and>
     (case (ic_hierarchy_root cache, ic_hierarchy cache) of
        (Some r, Some h) \<Rightarrow> h = scan_hierarchy (scan_paths (disk r))
      | _ \<Rightarrow> True)"

text \<open>The specification's example tree, and trees for the counterexamples.\<close>

definition example_tree :: entry where
  "example_tree = Dir [(''misc'', Dir [(''c.jpg'', File 3)]),
                       (''2022-05-02'', Dir [(''b.jpg'', File 2)]),
                       (''2022-05-01'', Dir [(''a.jpg'', File 1)])]"

definition example_disk :: disk where
  "example_disk r = example_tree"

definition mixed_case_tree :: entry where
  "mixed_case_tree = Dir [(''misc'', Dir [(''B.jpg'', File 3), (''a.jpg'', File 3)]),
                          (''2022'', Dir [(''x.jpg'', File 2)])]"

definition mixed_case_disk :: disk where
  "mixed_case_disk r = mixed_case_tree"

definition same_day_tree :: entry where
  "same_day_tree = Dir [(''2022'', Dir [(''2022-05-01'', Dir [(''a.jpg'', File 1), (''b.jpg'', File 2)])])]"

definition same_day_disk :: disk where
  "same_day_disk r = same_day_tree"

text \<open>The items of a timeline page, and the ordered sequence that a group request pages over.\<close>

definition timeline_items :: "timeline_payload \<Rightarrow> image_ref list" where
  "timeline_items page = concat (map snd (sections page))"

definition group_sequence ::
  "disk \<Rightarrow> real \<Rightarrow> image_cache \<Rightarrow> string \<Rightarrow> string \<Rightarrow> string \<Rightarrow> image_item list" where
  "group_sequence disk now cache root_path group_key order =
     (case map_of (images_by_group (fst (build_hierarchy disk now cache root_path))) group_key of
        None \<Rightarrow> []
      | Some imgs \<Rightarrow> if order = ''desc'' then imgs else rev imgs)"

text \<open>
  A client that follows the cursors: call \<open>i\<close> is made with the state that call \<open>i - 1\<close>
  left and with the cursor it returned, until a page comes without a cursor; the client
  collects the items of all pages. The fuel bounds the number of calls.
\<close>

fun chain_pages ::
  "nat \<Rightarrow> (nat \<Rightarrow> 's \<Rightarrow> string option \<Rightarrow> ('b list \<times> string option) \<times> 's) \<Rightarrow> nat \<Rightarrow> 's
     \<Rightarrow> string option \<Rightarrow> 'b list option" where
  "chain_pages 0 call i st cursor = None"
| "chain_pages (Suc fuel) call i st cursor =
     (case call i st cursor of
        ((items, None), st') \<Rightarrow> Some items
      | ((items, Some c), st') \<Rightarrow>
          map_option (\<lambda>more. items @ more) (chain_pages fuel call (Suc i) st' (Some c)))"

definition timeline_call ::
  "disk \<Rightarrow> (nat \<Rightarrow> real) \<Rightarrow> string \<Rightarrow> int \<Rightarrow> string \<Rightarrow> nat \<Rightarrow> image_cache \<Rightarrow> string option
     \<Rightarrow> (image_ref list \<times> string option) \<times> image_cache" where
  "timeline_call disk clock root_path limit order i cache cursor =
     (let (page, cache) = timeline_sections disk (clock i) cache root_path cursor limit order
      in ((timeline_items page, tl_nextCursor page), cache))"

definition group_call ::
  "disk \<Rightarrow> (nat \<Rightarrow> real) \<Rightarrow> string \<Rightarrow> string \<Rightarrow> int \<Rightarrow> string \<Rightarrow> nat \<Rightarrow> image_cache
     \<Rightarrow> string option \<Rightarrow> (image_ref list \<times> string option) \<times> image_cache" where
  "group_call disk clock root_path group_key limit order i cache cursor =
     (let (page, cache) =
            group_images_payload disk (clock i) cache root_path group_key cursor limit order
      in ((images page, nextCursor page), cache))"

text \<open>Every image of the snapshot has its own, non-empty relative path.\<close>

definition snapshot_paths_distinct :: "disk \<Rightarrow> string \<Rightarrow> bool" where
  "snapshot_paths_distinct disk root_path \<longleftrightarrow>
     distinct (scan_paths (disk root_path)) \<and> [] \<notin> set (scan_paths (disk root_path))"

text \<open>The entry that a page shows for one item of the sequence.\<close>

definition timeline_ref :: "string \<Rightarrow> image_ref" where
  "timeline_ref rel_path_str =
     (let rel_path = Path rel_path_str;
          hint = guess_date_hint rel_path;
          label = or_else hint (or_else (Some (path_name (path_parent rel_path))) ''Unknown'')
      in \<lparr>ref_name = path_name rel_path, ref_path = rel_path_str,
          ref_dateHint = or_else hint label\<rparr>)"

definition group_ref :: "image_item \<Rightarrow> image_ref" where
  "group_ref item =
     \<lparr>ref_name = item_name item, ref_path = item_path item, ref_dateHint = item_dateHint item\<rparr>"

definition timeline_sequence ::
  "disk \<Rightarrow> real \<Rightarrow> image_cache \<Rightarrow> string \<Rightarrow> string \<Rightarrow> string list" where
  "timeline_sequence disk now cache root_path order =
     fst (sorted_image_paths disk now cache root_path order)"

text \<open>
  What the specification says of the next cursor of a page: it is the identifier of the
  page's last item, and it is absent exactly when the page is empty or ends where the
  sequence ends.
\<close>

definition next_cursor_of_page :: "nat \<Rightarrow> nat \<Rightarrow> string list \<Rightarrow> string option" where
  "next_cursor_of_page start_index n page_ids =
     (if page_ids = [] \<or> start_index + length page_ids = n then None
      else Some (last page_ids))"

definition slow_clock :: "nat \<Rightarrow> real" where
  \<comment> \<open>40 seconds between calls: every call finds the cache expired\<close>
  "slow_clock i = 40 * real i"

text \<open>All item paths that the groups of a dictionary hold, with their multiplicities.\<close>

definition group_paths :: "(string \<times> image_item list) list \<Rightarrow> string multiset" where
  "group_paths by_group = mset (concat (map (\<lambda>(k, l). map item_path l) by_group))"

text \<open>A tree with 25 undated images in one subgroup, for requests with small limits.\<close>

definition many_tree :: entry where
  "many_tree =
     Dir [(''misc'',
           Dir [(''all'', Dir (map (\<lambda>i. (''img'' @ str_nat i @ ''.jpg'', File 1)) [10..<35]))])]"

definition many_disk :: disk where
  "many_disk r = many_tree"

text \<open>Two top-level folders, the first with an image, the last without any.\<close>

definition last_folder_tree :: entry where
  "last_folder_tree = Dir [(''a'', Dir [(''x.jpg'', File 1)]), (''b'', Dir [])]"

text \<open>
  A directory tree as a file system holds it: the names of one directory are pairwise distinct,
  and a name is not empty and has no separator.
\<close>

fun wf_tree :: "entry \<Rightarrow> bool" where
  "wf_tree (File sz) = True"
| "wf_tree (Dir es) =
     (distinct (map fst es) \<and>
      (\<forall>(name, e) \<in> set es. name \<noteq> [] \<and> CHR ''/'' \<notin> set name \<and> wf_tree e))"

definition plain_name :: "string \<Rightarrow> bool" where
  "plain_name n \<longleftrightarrow> n \<noteq> [] \<and> CHR ''/'' \<notin> set n"

section \<open>Properties\<close>

subsection \<open>Decimal strings\<close>

lemma foldl_digits: "foldl (\<lambda>a c. 10 * a + digit_val c) x s = x * 10 ^ length s + int_of_digits s"
proof (induction s arbitrary: x)
  case Nil show ?case by (simp add: int_of_digits_def)
next
  case (Cons c s)
  have "foldl (\<lambda>a c. 10 * a + digit_val c) x (c # s)
      = (10 * x + digit_val c) * 10 ^ length s + int_of_digits s"
    using Cons.IH [of "10 * x + digit_val c"] by simp
  moreover have "int_of_digits (c # s) = digit_val c * 10 ^ length s + int_of_digits s"
    using Cons.IH [of "digit_val c"] by (simp add: int_of_digits_def)
  ultimately show ?case by (simp add: algebra_simps)
qed

lemma int_of_digits_append:
  "int_of_digits (a @ b) = int_of_digits a * 10 ^ length b + int_of_digits b"
  using foldl_digits [of "int_of_digits a" b] by (simp add: int_of_digits_def)

lemma digit_val_digit_char: "d < 10 \<Longrightarrow> digit_val (digit_char d) = int d"
  by (simp add: digit_val_def digit_char_def)

lemma digit_val_zero: "digit_val CHR ''0'' = 0"
  by (simp add: digit_val_def)

lemma fmt_02d_small:
  assumes "0 \<le> n" "n < 100"
  shows "length (fmt_02d n) = 2 \<and> int_of_digits (fmt_02d n) = n"
proof (cases "n < 10")
  case True
  with assms have s: "str_nat (nat n) = [digit_char (nat n)]" by (simp add: str_nat.simps)
  have "digit_val (digit_char (nat n)) = n"
    using digit_val_digit_char [of "nat n"] True assms by simp
  with s True assms show ?thesis
    by (simp add: fmt_02d_def int_of_digits_def digit_val_zero)
next
  case False
  have k: "nat n div 10 < 10" "\<not> nat n < 10" using assms False by linarith+
  then have s: "str_nat (nat n) = [digit_char (nat n div 10), digit_char (nat n mod 10)]"
    by (subst str_nat.simps) (simp add: str_nat.simps [of "nat n div 10"])
  have "int (nat n div 10) = n div 10" "int (nat n mod 10) = n mod 10"
    using assms by (simp_all add: zdiv_int zmod_int)
  with k s assms show ?thesis
    by (simp add: fmt_02d_def int_of_digits_def digit_val_digit_char)
qed

lemma int_of_digits_zeros: "int_of_digits ''00'' = 0"
  by (simp add: int_of_digits_def digit_val_def)

subsection \<open>\<open>_extract_date_value\<close> computes the date of the first year token\<close>

lemma startswith_two: "startswith t [a, b] \<longleftrightarrow> take 2 t = [a, b]"
  by (simp add: startswith_def numeral_2_eq_2)

lemma date_digits:
  "length m = 2 \<Longrightarrow> length d = 2 \<Longrightarrow>
   int_of_digits (y @ m @ d) = int_of_digits y * 10000 + int_of_digits m * 100 + int_of_digits d"
  by (simp add: int_of_digits_append [of y] int_of_digits_append [of m])

lemma year_cond:
  "(length t = 4 \<and> (startswith t ''19'' \<or> startswith t ''20'')) = year_token t"
  by (simp add: year_token_def startswith_two)

lemma drop_shape: "drop n xs = (if n < length xs then xs ! n # drop (Suc n) xs else [])"
  by (simp add: Cons_nth_drop_Suc)

lemma extract_date_loop_skip:
  assumes "idx < length tokens" "\<not> year_token (tokens ! idx)"
  shows "extract_date_loop tokens idx = extract_date_loop tokens (Suc idx)"
  using assms by (subst extract_date_loop.simps) (simp only: year_cond Let_def, simp)

lemma drop_ConsD:
  assumes "drop n xs = a # r"
  shows "n < length xs \<and> xs ! n = a \<and> drop (Suc n) xs = r"
proof -
  have n: "n < length xs" using assms by (cases "n < length xs") simp_all
  with assms show ?thesis by (simp add: Cons_nth_drop_Suc [symmetric])
qed

lemma fmt_02d_component:
  "1 \<le> int_of_digits t \<Longrightarrow> int_of_digits t \<le> 31 \<Longrightarrow>
   int_of_digits (y @ fmt_02d (int_of_digits t) @ d) =
     int_of_digits y * 10 ^ (2 + length d) + int_of_digits t * 10 ^ length d + int_of_digits d"
  using fmt_02d_small [of "int_of_digits t"]
  by (simp add: int_of_digits_append [of y] int_of_digits_append [of "fmt_02d (int_of_digits t)"]
        power_add algebra_simps)

lemma extract_date_loop_hit:
  assumes "idx < length tokens" "year_token (tokens ! idx)"
  shows "extract_date_loop tokens idx =
    (True, int_of_digits (tokens ! idx) * 10000 + month_component (drop (Suc idx) tokens) * 100
       + day_component (drop (Suc idx) tokens))"
proof -
  have z: "int_of_digits (y @ ''0000'') = int_of_digits y * 10000" for y
    by (simp add: int_of_digits_append [of y] int_of_digits_def digit_val_zero)
  have l: "length (fmt_02d (int_of_digits t)) = 2"
    if "1 \<le> int_of_digits t" "int_of_digits t \<le> 31" for t
    using that fmt_02d_small [of "int_of_digits t"] by simp
  consider (none) "drop (Suc idx) tokens = []"
    | (one) m where "drop (Suc idx) tokens = [m]"
    | (two) m d r where "drop (Suc idx) tokens = m # d # r"
    by (cases "drop (Suc idx) tokens" rule: list.exhaust;
        cases "tl (drop (Suc idx) tokens)" rule: list.exhaust) auto
  then show ?thesis
  proof cases
    case none
    then have "\<not> Suc idx < length tokens" by simp
    with assms none show ?thesis
      by (subst extract_date_loop.simps)
         (simp add: year_cond Let_def month_component_def day_component_def z)
  next
    case (one m)
    from drop_ConsD [OF one] have f: "Suc idx < length tokens" "tokens ! Suc idx = m"
      "\<not> Suc (Suc idx) < length tokens" by simp_all
    with assms one show ?thesis
      by (subst extract_date_loop.simps)
         (simp add: year_cond Let_def month_component_def day_component_def z
            valid_component_def fmt_02d_component int_of_digits_zeros)
  next
    case (two m d r)
    from drop_ConsD [OF two] have f: "Suc idx < length tokens" "tokens ! Suc idx = m"
      and r: "drop (Suc (Suc idx)) tokens = d # r" by simp_all
    from drop_ConsD [OF r] have g: "Suc (Suc idx) < length tokens" "tokens ! Suc (Suc idx) = d"
      by simp_all
    have dd: "int_of_digits (fmt_02d (int_of_digits d)) = int_of_digits d"
      if "1 \<le> int_of_digits d" "int_of_digits d \<le> 31"
      using that fmt_02d_small [of "int_of_digits d"] by simp
    from assms two f g show ?thesis
      by (subst extract_date_loop.simps)
         (simp add: year_cond Let_def month_component_def day_component_def z
            valid_component_def fmt_02d_component int_of_digits_zeros l dd)
  qed
qed

lemma extract_date_loop_tokens:
  "extract_date_loop tokens idx = date_of_tokens (drop idx tokens)"
proof (induction tokens idx rule: extract_date_loop.induct)
  case (1 tokens idx)
  show ?case
  proof (cases "idx < length tokens")
    case False
    then show ?thesis by (subst extract_date_loop.simps) simp
  next
    case True
    then have d: "drop idx tokens = tokens ! idx # drop (Suc idx) tokens"
      by (simp add: Cons_nth_drop_Suc)
    show ?thesis
    proof (cases "year_token (tokens ! idx)")
      case False
      with True have "extract_date_loop tokens (idx + 1) = date_of_tokens (drop (idx + 1) tokens)"
        by (intro "1.IH") (simp_all add: year_cond)
      with True False d show ?thesis
        by (simp add: extract_date_loop_skip)
    next
      case yt: True
      with True d show ?thesis by (simp add: extract_date_loop_hit)
    qed
  qed
qed


lemma maximal_digit_runs_Nil: "maximal_digit_runs [] = []"
  by (subst maximal_digit_runs.simps) simp

lemma maximal_digit_runs_skip: "\<not> is_digit c \<Longrightarrow> maximal_digit_runs (c # s) = maximal_digit_runs s"
  by (subst maximal_digit_runs.simps, subst (2) maximal_digit_runs.simps) simp

lemma maximal_digit_runs_run:
  assumes "cur \<noteq> []" "list_all is_digit cur" "s = [] \<or> \<not> is_digit (hd s)"
  shows "maximal_digit_runs (cur @ s) = cur # maximal_digit_runs s"
proof -
  obtain d ds where cur: "cur = d # ds" using assms(1) by (cases cur) auto
  with assms(2) have d: "is_digit d" and ds: "\<forall>x\<in>set ds. is_digit x"
    by (simp_all add: list_all_iff)
  have s: "takeWhile is_digit s = []" "dropWhile is_digit s = s"
    using assms(3) by (cases s; simp)+
  have "takeWhile is_digit (ds @ s) = ds" "dropWhile is_digit (ds @ s) = s"
    using ds s by simp_all
  with d cur show ?thesis
    by (subst maximal_digit_runs.simps) simp
qed

lemma date_tokens_split:
  "list_all is_digit cur \<Longrightarrow> (in_sep \<longrightarrow> cur = []) \<Longrightarrow>
   filter (\<lambda>tok. tok \<noteq> []) (re_split_nondigits in_sep cur s) = maximal_digit_runs (cur @ s)"
proof (induction s arbitrary: in_sep cur)
  case Nil
  then show ?case
    using maximal_digit_runs_run [of cur "[]"]
    by (cases "cur = []") (simp_all add: maximal_digit_runs_Nil)
next
  case (Cons c cs)
  show ?case
  proof (cases "is_digit c")
    case True
    with Cons.prems have "list_all is_digit (cur @ [c])" by simp
    from Cons.IH [OF this, of False] True show ?thesis by simp
  next
    case False
    have rest: "filter (\<lambda>tok. tok \<noteq> []) (re_split_nondigits True [] cs) = maximal_digit_runs cs"
      using Cons.IH [of "[]" True] by simp
    show ?thesis
    proof (cases "cur = []")
      case True
      with False rest show ?thesis by (simp add: maximal_digit_runs_skip)
    next
      case nonempty: False
      with Cons.prems have "\<not> in_sep" by auto
      moreover have "maximal_digit_runs (cur @ c # cs) = cur # maximal_digit_runs cs"
        using maximal_digit_runs_run [of cur "c # cs"] nonempty Cons.prems False
        by (simp add: maximal_digit_runs_skip)
      ultimately show ?thesis using False nonempty rest by simp
    qed
  qed
qed

lemma date_tokens_runs: "date_tokens s = maximal_digit_runs s"
  using date_tokens_split [of "[]" False s] by (simp add: date_tokens_def)

text \<open>
  Claim C5. For every relative path, \<open>_extract_date_value\<close> returns what the specification
  describes: the path text is cut into its maximal digit runs; the first run of length 4
  starting with \<open>19\<close> or \<open>20\<close> is the year; the run right after it is the month when it
  has two digits and a value from 1 to 12; the run after a consumed month is the day when it
  has two digits and a value from 1 to 31; missing components count as \<open>00\<close>; the result is
  \<open>(True, YYYYMMDD)\<close>, and \<open>(False, 0)\<close> when no run is a year.
\<close>

theorem extract_date_value_spec:
  "extract_date_value rel_path = spec_extract_date_value (str_path rel_path)"
  by (simp add: extract_date_value_def spec_extract_date_value_def extract_date_loop_tokens
        date_tokens_runs)

subsection \<open>\<open>guess_date_hint\<close> returns the leaf-most qualifying segment\<close>

lemma is_digit_separator: "is_digit c \<Longrightarrow> \<not> is_separator c"
  by (auto simp: is_digit_def is_separator_def)

lemma not_digit_underscore: "\<not> is_digit CHR ''_''" "\<not> is_digit CHR ''-''"
  by (simp_all add: is_digit_def)

lemma length_replace_char: "length (replace_char a b s) = length s"
  by (simp add: replace_char_def)

lemma take_replace_char: "take n (replace_char a b s) = replace_char a b (take n s)"
  by (simp add: replace_char_def take_map)

lemma replace_char_digits: "list_all is_digit s \<Longrightarrow> is_separator a \<Longrightarrow> replace_char a b s = s"
  by (induction s) (auto simp: replace_char_def dest: is_digit_separator)

lemma isdigit_normalized:
  "isdigit (replace_char CHR ''-'' CHR ''_'' s) \<longleftrightarrow> isdigit s"
  by (induction s) (auto simp: isdigit_def replace_char_def not_digit_underscore)

lemma cleaned_label:
  "replace_char CHR ''_'' CHR ''-'' (replace_char CHR ''-'' CHR ''_'' s) = hint_label s"
  by (simp add: replace_char_def hint_label_def)

lemma count_cleaned:
  "count_list (hint_label s) CHR ''-'' = length (filter is_separator s)"
  by (induction s) (auto simp: hint_label_def replace_char_def is_separator_def)

lemma guess_date_hint_loop_find:
  "guess_date_hint_loop parts = map_option hint_label (find date_hint_segment parts)"
proof (induction parts)
  case Nil
  show ?case by simp
next
  case (Cons part rest)
  have year: "replace_char CHR ''-'' CHR ''_'' part = hint_label part" if "isdigit part"
    using that by (simp add: isdigit_def hint_label_def replace_char_digits is_separator_def)
  show ?case
    using Cons.IH
    by (simp add: Let_def length_replace_char take_replace_char isdigit_normalized cleaned_label
          count_cleaned date_hint_segment_def year)
qed

text \<open>
  Claim C6, as amended. Scanning the segments from the leaf toward the root,
  \<open>guess_date_hint\<close> returns the first segment that is either a bare 4-digit year or has at
  least 8 characters, 4 leading digits and at least two separators (\<open>-\<close> or \<open>_\<close>), with
  \<open>_\<close> rewritten to \<open>-\<close>; it returns nothing exactly when no segment qualifies in this sense.
\<close>

theorem guess_date_hint_first_qualifying:
  "guess_date_hint p = map_option hint_label (find date_hint_segment (rev p)) \<and>
   (guess_date_hint p = None \<longleftrightarrow> \<not> list_ex date_hint_segment p)"
  by (auto simp: guess_date_hint_def guess_date_hint_loop_find find_None_iff list_ex_iff)

theorem guess_date_hint_first_qualifying_witness:
  "guess_date_hint [''2022'', ''2021_05_01'', ''a.jpg''] = Some ''2021-05-01'' \<and>
   guess_date_hint [''misc'', ''c.jpg''] = None"
  using guess_date_hint_first_qualifying [of "[''2022'', ''2021_05_01'', ''a.jpg'']"]
    guess_date_hint_first_qualifying [of "[''misc'', ''c.jpg'']"]
  by (simp add: date_hint_segment_def hint_label_def replace_char_def isdigit_def is_digit_def
        is_separator_def)

text \<open>
  Claim C6 as stated fails: the segment \<open>20220501\<close> has 8 contiguous digits, so the
  specification's test accepts it, but the code asks for two separators and returns nothing.
\<close>

theorem guess_date_hint_contiguous_digits_counterexample:
  "claimed_hint_segment ''20220501'' \<and>
   claimed_date_hint (Path ''20220501/a.jpg'') = Some ''20220501'' \<and>
   guess_date_hint (Path ''20220501/a.jpg'') = None"
  by (simp add: claimed_hint_segment_def claimed_date_hint_def guess_date_hint_def Path_def
        hint_label_def replace_char_def isdigit_def is_digit_def)

subsection \<open>\<open>sorted_image_paths\<close>: dated block, then undated block\<close>

lemma split_dated_filter:
  "split_dated xs = (map (\<lambda>r. (date_value r, r)) (filter has_date xs), filter (\<lambda>p. \<not> has_date p) xs)"
  by (induction xs) (auto simp: has_date_def date_value_def split: prod.splits)

lemma build_paths_blocks:
  "build_paths xs =
     map snd (sort_key (\<lambda>item. (fst item, lower (snd item)))
                (map (\<lambda>r. (date_value r, r)) (filter has_date xs)))
     @ sort_key lower (filter (\<lambda>p. \<not> has_date p) xs)"
  by (simp add: build_paths_def split_dated_filter)

lemma dated_block_build:
  "dated_block (build_paths xs) =
     map snd (sort_key (\<lambda>item. (fst item, lower (snd item)))
                (map (\<lambda>r. (date_value r, r)) (filter has_date xs)))"
proof -
  have "filter has_date (map snd (sort_key k (map (\<lambda>r. (date_value r, r)) (filter has_date xs))))
      = map snd (sort_key k (map (\<lambda>r. (date_value r, r)) (filter has_date xs)))" for k :: "int \<times> string \<Rightarrow> int \<times> string"
    by (rule filter_True) auto
  moreover have "filter has_date (sort_key lower (filter (\<lambda>p. \<not> has_date p) xs)) = []"
    by (rule filter_False) auto
  ultimately show ?thesis by (simp add: dated_block_def build_paths_blocks)
qed

lemma undated_block_build:
  "undated_block (build_paths xs) = sort_key lower (filter (\<lambda>p. \<not> has_date p) xs)"
proof -
  have "filter (\<lambda>p. \<not> has_date p) (map snd (sort_key k (map (\<lambda>r. (date_value r, r)) (filter has_date xs)))) = []"
    for k :: "int \<times> string \<Rightarrow> int \<times> string"
    by (rule filter_False) auto
  moreover have "filter (\<lambda>p. \<not> has_date p) (sort_key lower (filter (\<lambda>p. \<not> has_date p) xs))
     = sort_key lower (filter (\<lambda>p. \<not> has_date p) xs)"
    by (rule filter_True) auto
  ultimately show ?thesis by (simp add: undated_block_def build_paths_blocks)
qed

lemma build_paths_split: "build_paths xs = dated_block (build_paths xs) @ undated_block (build_paths xs)"
  unfolding dated_block_build undated_block_build by (rule build_paths_blocks)

lemma sorted_dated_block:
  "sorted (map (\<lambda>p. (date_value p, lower p)) (dated_block (build_paths xs)))"
proof -
  let ?k = "\<lambda>item :: int \<times> string. (fst item, lower (snd item))"
  let ?S = "sort_key ?k (map (\<lambda>r. (date_value r, r)) (filter has_date xs))"
  have "map (\<lambda>p. (date_value p, lower p)) (map snd ?S) = map ?k ?S"
    by (auto simp: comp_def)
  then show ?thesis by (simp add: dated_block_build del: map_map)
qed

lemma sorted_undated_block: "sorted (map lower (undated_block (build_paths xs)))"
  by (simp add: undated_block_build)

lemma mset_build_paths: "mset (build_paths xs) = mset xs"
proof -
  have "mset (map snd (sort_key k (map (\<lambda>r. (date_value r, r)) (filter has_date xs)))) = mset (filter has_date xs)"
    for k :: "int \<times> string \<Rightarrow> int \<times> string"
    by (simp add: multiset.map_comp comp_def)
  then show ?thesis by (simp add: build_paths_blocks)
qed

lemma serve_paths_asc: "serve_paths ps ''asc'' = ps"
  by (simp add: serve_paths_def)

lemma serve_paths_desc:
  "order \<noteq> ''asc'' \<Longrightarrow> serve_paths ps order = rev (dated_block ps) @ undated_block ps"
  by (simp add: serve_paths_def dated_block_def undated_block_def has_date_def [abs_def])

lemma sorted_image_paths_consistent:
  assumes "cache_consistent disk cache"
  shows "fst (sorted_image_paths disk now cache r order) = serve_paths (build_paths (scan_paths (disk r))) order"
    and "cache_consistent disk (snd (sorted_image_paths disk now cache r order))"
  using assms
  by (auto simp: sorted_image_paths_def cache_consistent_def Let_def split: option.splits)

lemma desc_not_rev_asc:
  assumes "dated_block ps \<noteq> []" "undated_block ps \<noteq> []" "ps = dated_block ps @ undated_block ps"
  shows "rev (dated_block ps) @ undated_block ps \<noteq> rev ps"
proof
  assume eq: "rev (dated_block ps) @ undated_block ps = rev ps"
  have "hd (rev (dated_block ps) @ undated_block ps) = last (dated_block ps)"
    using assms(1) by (simp add: hd_rev)
  moreover have "hd (rev ps) = last (undated_block ps)"
    using assms(2) by (subst assms(3)) (simp add: hd_rev)
  moreover have "has_date (last (dated_block ps))"
    using last_in_set [OF assms(1)] by (simp add: dated_block_def)
  moreover have "\<not> has_date (last (undated_block ps))"
    using last_in_set [OF assms(2)] by (simp add: undated_block_def)
  ultimately show False using eq by metis
qed


lemma example_asc:
  "fst (sorted_image_paths example_disk 0 IMAGE_CACHE ''/pictures'' ''asc'') =
     [''2022-05-01/a.jpg'', ''2022-05-02/b.jpg'', ''misc/c.jpg'']"
  by code_simp

lemma example_desc:
  "fst (sorted_image_paths example_disk 0 IMAGE_CACHE ''/pictures'' ''desc'') =
     [''2022-05-02/b.jpg'', ''2022-05-01/a.jpg'', ''misc/c.jpg'']"
  by code_simp

lemma initial_cache_consistent: "cache_consistent disk IMAGE_CACHE"
  by (simp add: cache_consistent_def IMAGE_CACHE_def)

text \<open>
  Claim C1, as amended. On an unchanged snapshot, \<open>sorted_image_paths(root, "asc")\<close> returns
  every scanned image once: first all dated images, ascending by
  \<open>(dateValue, lowercased path)\<close>, then all undated images, ascending by lowercased path.
  Any other order (\<open>"desc"\<close>) reverses the dated block only and appends the undated block
  unchanged, so the result differs from the reversed ascending list whenever both blocks are
  non-empty.
\<close>

theorem sorted_image_paths_blocks:
  fixes disk :: disk and r :: string and now1 now2 :: real
  assumes "cache_consistent disk c1" and "cache_consistent disk c2" and "order \<noteq> ''asc''"
  defines "asc \<equiv> fst (sorted_image_paths disk now1 c1 r ''asc'')"
    and "desc \<equiv> fst (sorted_image_paths disk now2 c2 r order)"
  shows "mset asc = mset (scan_paths (disk r)) \<and>
         asc = dated_block asc @ undated_block asc \<and>
         sorted (map (\<lambda>p. (date_value p, lower p)) (dated_block asc)) \<and>
         sorted (map lower (undated_block asc)) \<and>
         desc = rev (dated_block asc) @ undated_block asc \<and>
         (dated_block asc \<noteq> [] \<and> undated_block asc \<noteq> [] \<longrightarrow> desc \<noteq> rev asc)"
proof -
  let ?ps = "build_paths (scan_paths (disk r))"
  have asc: "asc = ?ps"
    using assms(1) by (simp add: asc_def sorted_image_paths_consistent serve_paths_asc)
  have desc: "desc = rev (dated_block ?ps) @ undated_block ?ps"
    using assms(2,3) by (simp add: desc_def sorted_image_paths_consistent serve_paths_desc)
  have split: "?ps = dated_block ?ps @ undated_block ?ps"
    by (rule build_paths_split)
  have "dated_block ?ps \<noteq> [] \<and> undated_block ?ps \<noteq> [] \<longrightarrow> desc \<noteq> rev ?ps"
    unfolding desc using desc_not_rev_asc [OF _ _ split] by blast
  with split show ?thesis
    unfolding asc desc
    by (simp add: mset_build_paths sorted_dated_block sorted_undated_block)
qed

theorem sorted_image_paths_blocks_witness:
  "cache_consistent example_disk IMAGE_CACHE \<and>
   dated_block [''2022-05-01/a.jpg'', ''2022-05-02/b.jpg'', ''misc/c.jpg''] \<noteq> [] \<and>
   undated_block [''2022-05-01/a.jpg'', ''2022-05-02/b.jpg'', ''misc/c.jpg''] \<noteq> [] \<and>
   fst (sorted_image_paths example_disk 0 IMAGE_CACHE ''/pictures'' ''desc'') \<noteq>
     rev (fst (sorted_image_paths example_disk 0 IMAGE_CACHE ''/pictures'' ''asc''))"
proof -
  have d: "dated_block [''2022-05-01/a.jpg'', ''2022-05-02/b.jpg'', ''misc/c.jpg''] \<noteq> []"
    by code_simp
  have u: "undated_block [''2022-05-01/a.jpg'', ''2022-05-02/b.jpg'', ''misc/c.jpg''] \<noteq> []"
    by code_simp
  have o: "''desc'' \<noteq> ''asc''" by simp
  note blocks = sorted_image_paths_blocks [OF initial_cache_consistent initial_cache_consistent o,
      of example_disk 0 "''/pictures''" 0]
  note differ = blocks [THEN conjunct2, THEN conjunct2, THEN conjunct2, THEN conjunct2,
      THEN conjunct2, unfolded example_asc]
  from differ d u initial_cache_consistent show ?thesis
    unfolding example_asc by blast
qed

text \<open>
  Claim C1 as stated fails on file names of mixed case: the undated block is ordered by
  lowercased path, which is not the order of the paths themselves.
\<close>

theorem sorted_image_paths_mixed_case_counterexample:
  "undated_block (fst (sorted_image_paths mixed_case_disk 0 IMAGE_CACHE ''/pictures'' ''asc''))
     = [''misc/a.jpg'', ''misc/B.jpg''] \<and> ''misc/B.jpg'' < ''misc/a.jpg''"
  by code_simp

subsection \<open>\<open>build_hierarchy\<close>: every group is stored newest first\<close>

lemma sorted_sort_reverse: "sorted_wrt (\<lambda>a b. f a \<ge> f b) (sort_reverse f xs)"
proof -
  have "sorted (map f (sort_key f (rev xs)))" by simp
  then have "sorted_wrt (\<lambda>a b. f a \<le> f b) (sort_key f (rev xs))"
    by (simp add: sorted_map)
  then show ?thesis
    by (simp add: sort_reverse_def sorted_wrt_rev)
qed

lemma scan_hierarchy_sorted:
  "(k, items) \<in> set (images_by_group (scan_hierarchy relatives)) \<Longrightarrow>
   sorted_wrt (\<lambda>a b. group_sort_key a \<ge> group_sort_key b) items"
  by (auto simp: scan_hierarchy_def Let_def sorted_sort_reverse)

lemma build_hierarchy_consistent:
  assumes "cache_consistent disk cache"
  shows "fst (build_hierarchy disk now cache r) = scan_hierarchy (scan_paths (disk r))"
    and "cache_consistent disk (snd (build_hierarchy disk now cache r))"
  using assms
  by (auto simp: build_hierarchy_def cache_consistent_def Let_def split: option.splits)

lemma same_day_groups:
  "images_by_group (fst (build_hierarchy same_day_disk 0 IMAGE_CACHE ''/pictures'')) =
     [(''2022/2022-05-01'',
       [\<lparr>item_name = ''b.jpg'', item_path = ''2022/2022-05-01/b.jpg'',
          item_dateHint = ''2022-05-01'', item_dateValue = 20220000, item_hasDate = True\<rparr>,
        \<lparr>item_name = ''a.jpg'', item_path = ''2022/2022-05-01/a.jpg'',
          item_dateHint = ''2022-05-01'', item_dateValue = 20220000, item_hasDate = True\<rparr>])]"
  by code_simp

text \<open>
  Claim C2, as amended. On an unchanged snapshot, every member list that \<open>build_hierarchy\<close>
  stores is sorted by the key \<open>(hasDate, dateValue, lowercased path)\<close>, descending in all
  three components: among two members with the same \<open>hasDate\<close> and \<open>dateValue\<close>, the one
  with the larger lowercased path comes first.
\<close>

theorem build_hierarchy_members_sorted:
  assumes "cache_consistent disk cache"
    and "(k, items) \<in> set (images_by_group (fst (build_hierarchy disk now cache r)))"
  shows "sorted_wrt (\<lambda>a b. group_sort_key a \<ge> group_sort_key b) items \<and>
         (\<forall>i j. i < j \<and> j < length items \<and> item_hasDate (items ! i) = item_hasDate (items ! j)
              \<and> item_dateValue (items ! i) = item_dateValue (items ! j)
            \<longrightarrow> lower (item_path (items ! j)) \<le> lower (item_path (items ! i)))"
proof -
  have s: "sorted_wrt (\<lambda>a b. group_sort_key a \<ge> group_sort_key b) items"
    using assms scan_hierarchy_sorted by (simp add: build_hierarchy_consistent)
  moreover have "lower (item_path (items ! j)) \<le> lower (item_path (items ! i))"
    if "i < j" "j < length items" "item_hasDate (items ! i) = item_hasDate (items ! j)"
      "item_dateValue (items ! i) = item_dateValue (items ! j)" for i j
  proof -
    from s that(1,2) have "group_sort_key (items ! j) \<le> group_sort_key (items ! i)"
      by (simp add: sorted_wrt_iff_nth_less)
    with that(3,4) show ?thesis
      by (simp add: group_sort_key_def less_eq_prod_def)
  qed
  ultimately show ?thesis by blast
qed

theorem build_hierarchy_members_sorted_witness:
  "cache_consistent same_day_disk IMAGE_CACHE \<and>
   sorted_wrt (\<lambda>a b. group_sort_key a \<ge> group_sort_key b)
     [\<lparr>item_name = ''b.jpg'', item_path = ''2022/2022-05-01/b.jpg'',
        item_dateHint = ''2022-05-01'', item_dateValue = 20220000, item_hasDate = True\<rparr>,
      \<lparr>item_name = ''a.jpg'', item_path = ''2022/2022-05-01/a.jpg'',
        item_dateHint = ''2022-05-01'', item_dateValue = 20220000, item_hasDate = True\<rparr>]"
proof -
  have m: "(''2022/2022-05-01'',
       [\<lparr>item_name = ''b.jpg'', item_path = ''2022/2022-05-01/b.jpg'',
          item_dateHint = ''2022-05-01'', item_dateValue = 20220000, item_hasDate = True\<rparr>,
        \<lparr>item_name = ''a.jpg'', item_path = ''2022/2022-05-01/a.jpg'',
          item_dateHint = ''2022-05-01'', item_dateValue = 20220000, item_hasDate = True\<rparr>])
     \<in> set (images_by_group (fst (build_hierarchy same_day_disk 0 IMAGE_CACHE ''/pictures'')))"
    by (simp add: same_day_groups)
  from build_hierarchy_members_sorted [OF initial_cache_consistent m] initial_cache_consistent
  show ?thesis by blast
qed

text \<open>
  Claim C2 as stated fails: two members with the same date are stored with the larger path
  first, because \<open>reverse=True\<close> reverses the path component of the key as well.
\<close>

theorem build_hierarchy_same_day_counterexample:
  "map_of (images_by_group (fst (build_hierarchy same_day_disk 0 IMAGE_CACHE ''/pictures'')))
     ''2022/2022-05-01'' =
   Some [\<lparr>item_name = ''b.jpg'', item_path = ''2022/2022-05-01/b.jpg'',
           item_dateHint = ''2022-05-01'', item_dateValue = 20220000, item_hasDate = True\<rparr>,
         \<lparr>item_name = ''a.jpg'', item_path = ''2022/2022-05-01/a.jpg'',
           item_dateHint = ''2022-05-01'', item_dateValue = 20220000, item_hasDate = True\<rparr>]
   \<and> ''2022/2022-05-01/a.jpg'' < ''2022/2022-05-01/b.jpg''"
  by (simp add: same_day_groups)

subsection \<open>Cursors\<close>

lemma replace_os_sep: "replace_char os_sep CHR ''/'' c = c"
  by (simp add: replace_char_def os_sep_def map_idI)

lemma list_index_absent: "c \<notin> set xs \<Longrightarrow> \<exists>e. list_index xs c = Inl e"
  by (induction xs) auto

lemma cursor_scan_absent: "c \<notin> item_path ` set xs \<Longrightarrow> cursor_scan xs c idx = 0"
  by (induction xs arbitrary: idx) auto

lemma timeline_start_absent: "c \<notin> set paths \<Longrightarrow> timeline_start_index paths (Some c) = 0"
  using list_index_absent [of c paths]
  by (auto simp: timeline_start_index_def replace_os_sep Let_def)

lemma group_start_absent:
  "c \<notin> item_path ` set sequence \<Longrightarrow> group_start_index sequence (Some c) = 0"
  by (simp add: group_start_index_def replace_os_sep cursor_scan_absent)

lemma start_index_None:
  "timeline_start_index paths None = 0" "group_start_index sequence None = 0"
  by (simp_all add: timeline_start_index_def group_start_index_def)

lemma timeline_page_absent:
  "c \<notin> set paths \<Longrightarrow> timeline_page paths (Some c) limit = timeline_page paths None limit"
  by (simp add: timeline_page_def timeline_start_absent start_index_None)

lemma group_page_absent:
  "c \<notin> item_path ` set sequence \<Longrightarrow> group_page sequence (Some c) limit = group_page sequence None limit"
  by (simp add: group_page_def group_start_absent start_index_None)

lemma group_images_payload_page:
  "fst (group_images_payload disk now cache r g cursor limit order) =
     (case map_of (images_by_group (fst (build_hierarchy disk now cache r))) g of
        None \<Rightarrow> \<lparr>images = [], nextCursor = None\<rparr>
      | Some imgs \<Rightarrow> group_page (group_sequence disk now cache r g order) cursor limit)"
  by (simp add: group_images_payload_def group_sequence_def split: prod.splits option.splits)

lemma group_images_payload_cache:
  "snd (group_images_payload disk now cache r g cursor limit order) = snd (build_hierarchy disk now cache r)"
  by (simp add: group_images_payload_def split: prod.splits option.splits)

lemma timeline_sections_page:
  "fst (timeline_sections disk now cache r cursor limit order) =
     timeline_page (fst (sorted_image_paths disk now cache r order)) cursor limit"
  "snd (timeline_sections disk now cache r cursor limit order) = snd (sorted_image_paths disk now cache r order)"
  by (simp_all add: timeline_sections_def split: prod.splits)

lemma example_desc_sequence:
  "fst (sorted_image_paths example_disk 0 IMAGE_CACHE ''/pictures'' ''desc'') =
     [''2022-05-02/b.jpg'', ''2022-05-01/a.jpg'', ''misc/c.jpg'']"
  by (rule example_desc)

lemma same_day_sequence:
  "group_sequence same_day_disk 0 IMAGE_CACHE ''/pictures'' ''2022/2022-05-01'' ''desc'' =
     [\<lparr>item_name = ''b.jpg'', item_path = ''2022/2022-05-01/b.jpg'',
        item_dateHint = ''2022-05-01'', item_dateValue = 20220000, item_hasDate = True\<rparr>,
      \<lparr>item_name = ''a.jpg'', item_path = ''2022/2022-05-01/a.jpg'',
        item_dateHint = ''2022-05-01'', item_dateValue = 20220000, item_hasDate = True\<rparr>]"
  by (simp add: group_sequence_def same_day_groups)

text \<open>
  Claim C3. For the sequence that the timeline serves and for the sequence that a group
  request serves, a cursor that is not the identifier of any item makes the page start at
  index 0: the answer is the one given without a cursor, the first page. The failed lookup is
  caught inside the model (\<open>list_index\<close> returns its error, the start index falls back to
  0), so no error reaches the caller.
\<close>

theorem cursor_not_found_first_page:
  "(c \<notin> set (fst (sorted_image_paths disk now cache r order)) \<longrightarrow>
      timeline_start_index (fst (sorted_image_paths disk now cache r order)) (Some c) = 0 \<and>
      timeline_sections disk now cache r (Some c) limit order =
        timeline_sections disk now cache r None limit order) \<and>
   (c \<notin> item_path ` set (group_sequence disk now cache r g order) \<longrightarrow>
      group_start_index (group_sequence disk now cache r g order) (Some c) = 0 \<and>
      group_images_payload disk now cache r g (Some c) limit order =
        group_images_payload disk now cache r g None limit order)"
proof (intro conjI impI)
  assume a: "c \<notin> set (fst (sorted_image_paths disk now cache r order))"
  then show "timeline_start_index (fst (sorted_image_paths disk now cache r order)) (Some c) = 0"
    by (rule timeline_start_absent)
  from a show "timeline_sections disk now cache r (Some c) limit order =
        timeline_sections disk now cache r None limit order"
    by (simp add: prod_eq_iff timeline_sections_page timeline_page_absent)
next
  assume a: "c \<notin> item_path ` set (group_sequence disk now cache r g order)"
  then show "group_start_index (group_sequence disk now cache r g order) (Some c) = 0"
    by (rule group_start_absent)
  from a show "group_images_payload disk now cache r g (Some c) limit order =
        group_images_payload disk now cache r g None limit order"
    by (simp add: prod_eq_iff group_images_payload_page group_images_payload_cache
          group_page_absent split: option.splits)
qed

theorem cursor_not_found_first_page_witness:
  "''gone.jpg'' \<notin> set (fst (sorted_image_paths example_disk 0 IMAGE_CACHE ''/pictures'' ''desc'')) \<and>
   timeline_sections example_disk 0 IMAGE_CACHE ''/pictures'' (Some ''gone.jpg'') 20 ''desc'' =
     timeline_sections example_disk 0 IMAGE_CACHE ''/pictures'' None 20 ''desc'' \<and>
   ''gone.jpg'' \<notin> item_path `
      set (group_sequence same_day_disk 0 IMAGE_CACHE ''/pictures'' ''2022/2022-05-01'' ''desc'') \<and>
   group_images_payload same_day_disk 0 IMAGE_CACHE ''/pictures'' ''2022/2022-05-01''
       (Some ''gone.jpg'') 20 ''desc'' =
     group_images_payload same_day_disk 0 IMAGE_CACHE ''/pictures'' ''2022/2022-05-01'' None 20 ''desc''"
proof -
  have a: "''gone.jpg'' \<notin> set (fst (sorted_image_paths example_disk 0 IMAGE_CACHE ''/pictures'' ''desc''))"
    by (simp add: example_desc_sequence)
  have b: "''gone.jpg'' \<notin> item_path `
      set (group_sequence same_day_disk 0 IMAGE_CACHE ''/pictures'' ''2022/2022-05-01'' ''desc'')"
    by (simp add: same_day_sequence)
  note t = cursor_not_found_first_page [of "''gone.jpg''" example_disk 0 IMAGE_CACHE "''/pictures''"
      "''desc''" 20, THEN conjunct1, THEN mp, OF a]
  note g = cursor_not_found_first_page [of "''gone.jpg''" same_day_disk 0 IMAGE_CACHE "''/pictures''"
      "''desc''" 20 "''2022/2022-05-01''", THEN conjunct2, THEN mp, OF b]
  from a b t g show ?thesis by blast
qed

subsection \<open>A group that the hierarchy does not have\<close>

text \<open>
  Claim C10. When the group key is not a key of the hierarchy's \<open>images_by_group\<close>,
  \<open>group_images_payload\<close> answers with an empty image list and no next cursor; the model has
  no error result on this path.
\<close>

theorem group_images_payload_unknown_group:
  "map_of (images_by_group (fst (build_hierarchy disk now cache r))) g = None \<Longrightarrow>
   fst (group_images_payload disk now cache r g cursor limit order) = \<lparr>images = [], nextCursor = None\<rparr>"
  by (simp add: group_images_payload_page)

theorem group_images_payload_unknown_group_witness:
  "map_of (images_by_group (fst (build_hierarchy same_day_disk 0 IMAGE_CACHE ''/pictures''))) ''nope''
     = None \<and>
   fst (group_images_payload same_day_disk 0 IMAGE_CACHE ''/pictures'' ''nope'' (Some ''x.jpg'') 20 ''desc'')
     = \<lparr>images = [], nextCursor = None\<rparr>"
proof -
  have n: "map_of (images_by_group (fst (build_hierarchy same_day_disk 0 IMAGE_CACHE ''/pictures'')))
      ''nope'' = None"
    by (simp add: same_day_groups)
  from group_images_payload_unknown_group [OF n] n show ?thesis by blast
qed

subsection \<open>Following the cursors visits every item once\<close>

lemma py_slice_window:
  "s \<le> length xs \<Longrightarrow> py_slice xs (int s) (int s + int k) = take k (drop s xs)"
  by (auto simp: py_slice_def Let_def min_def nat_diff_distrib' nat_add_distrib)

lemma py_slice_length: "s \<le> length xs \<Longrightarrow> s + length (py_slice xs (int s) (int s + l)) \<le> length xs"
  by (auto simp: py_slice_def Let_def min_def max_def)

lemma py_slice_all: "py_slice xs 0 (int (length xs)) = xs"
  by (auto simp: py_slice_def Let_def)

lemma timeline_loop_items:
  "concat (map snd (timeline_loop sl secs lbl cur)) =
     concat (map snd secs) @ cur @ map timeline_ref sl"
  by (induction sl arbitrary: secs lbl cur) (auto simp: Let_def timeline_ref_def)

lemma list_index_nth:
  "distinct xs \<Longrightarrow> i < length xs \<Longrightarrow> list_index xs (xs ! i) = Inr i"
proof (induction xs arbitrary: i)
  case Nil then show ?case by simp
next
  case (Cons x xs)
  then show ?case by (cases i) auto
qed

lemma list_index_bound: "list_index xs c = Inr i \<Longrightarrow> i < length xs"
  by (induction xs arbitrary: i) (auto split: if_splits sum.splits)

lemma timeline_start_le: "timeline_start_index ids cursor \<le> length ids"
  using list_index_bound [of ids]
  by (auto simp: timeline_start_index_def Let_def Suc_le_eq split: option.splits sum.splits)

lemma timeline_start_nth:
  "distinct ids \<Longrightarrow> i < length ids \<Longrightarrow> ids ! i \<noteq> [] \<Longrightarrow>
   timeline_start_index ids (Some (ids ! i)) = i + 1"
  by (simp add: timeline_start_index_def replace_os_sep list_index_nth)

lemma cursor_scan_index:
  "cursor_scan xs c idx =
     (case list_index (map item_path xs) c of Inr i \<Rightarrow> idx + i + 1 | Inl e \<Rightarrow> 0)"
  by (induction xs arbitrary: idx) (auto split: sum.splits)

lemma group_start_timeline:
  "group_start_index sequence cursor = timeline_start_index (map item_path sequence) cursor"
  by (simp add: group_start_index_def timeline_start_index_def cursor_scan_index Let_def
        split: option.splits sum.splits)

lemma timeline_page_items:
  "timeline_items (timeline_page paths cursor limit) =
     map timeline_ref (py_slice paths (int (timeline_start_index paths cursor))
        (int (timeline_start_index paths cursor) + limit))"
  by (auto simp: timeline_items_def timeline_page_def Let_def timeline_loop_items py_slice_def)

lemma timeline_page_next:
  "tl_nextCursor (timeline_page paths cursor limit) =
     (let s = timeline_start_index paths cursor; sl = py_slice paths (int s) (int s + limit)
      in if sl \<noteq> [] \<and> s + length sl < length paths then Some (last sl) else None)"
  by (auto simp: timeline_page_def Let_def py_slice_def)

lemma group_page_items:
  "images (group_page sequence cursor limit) =
     map group_ref (py_slice sequence (int (group_start_index sequence cursor))
        (int (group_start_index sequence cursor) + limit))"
  by (auto simp: group_page_def Let_def group_ref_def)

lemma group_page_next:
  "nextCursor (group_page sequence cursor limit) =
     (let s = group_start_index sequence cursor; sl = py_slice sequence (int s) (int s + limit)
      in if sl \<noteq> [] \<and> s + length sl < length sequence
         then Some (item_path (last sl)) else None)"
  by (auto simp: group_page_def Let_def)

lemma chain_pages_collects:
  fixes call :: "nat \<Rightarrow> 's \<Rightarrow> string option \<Rightarrow> ('b list \<times> string option) \<times> 's"
  assumes step: "\<And>i st cursor. Inv st \<Longrightarrow>
       fst (call i st cursor) = (map f (take k (drop (S cursor) xs)), N cursor)
       \<and> Inv (snd (call i st cursor))"
    and none: "\<And>cursor. N cursor = None \<Longrightarrow> length xs \<le> S cursor + k"
    and some: "\<And>cursor c. N cursor = Some c \<Longrightarrow> S cursor + k < length xs \<and> S (Some c) = S cursor + k"
    and k: "1 \<le> k"
  shows "Inv st \<Longrightarrow> length xs - S cursor < fuel \<Longrightarrow>
         chain_pages fuel call i st cursor = Some (map f (drop (S cursor) xs))"
proof (induction fuel arbitrary: i st cursor)
  case 0
  then show ?case by simp
next
  case (Suc fuel)
  obtain items nxt st' where c: "call i st cursor = ((items, nxt), st')"
    by (metis prod.exhaust)
  from step [OF Suc.prems(1), of i cursor] c
  have items: "items = map f (take k (drop (S cursor) xs))" and nxt: "nxt = N cursor"
    and inv: "Inv st'" by simp_all
  show ?case
  proof (cases nxt)
    case None
    with nxt none [of cursor] have "length xs \<le> S cursor + k" by simp
    then have "take k (drop (S cursor) xs) = drop (S cursor) xs" by simp
    with c None items show ?thesis by simp
  next
    case (Some c')
    with nxt some [of cursor c'] have lt: "S cursor + k < length xs"
      and s: "S (Some c') = S cursor + k" by simp_all
    from lt k Suc.prems(2) have "length xs - S (Some c') < fuel" unfolding s by linarith
    from Suc.IH [OF inv this, of "Suc i"]
    have "chain_pages fuel call (Suc i) st' (Some c') = Some (map f (drop (S cursor + k) xs))"
      by (simp add: s)
    moreover have "take k (drop (S cursor) xs) @ drop (S cursor + k) xs = drop (S cursor) xs"
      by (metis add.commute append_take_drop_id drop_drop)
    ultimately show ?thesis using c Some items
      by (simp add: map_append [symmetric] del: map_append)
  qed
qed


lemma serve_paths_mset: "mset (serve_paths ps order) = mset ps"
  by (simp add: serve_paths_def Let_def)

lemma served_sequence_distinct:
  assumes "distinct xs" "[] \<notin> set xs"
  shows "distinct (serve_paths (build_paths xs) order) \<and> [] \<notin> set (serve_paths (build_paths xs) order)"
proof -
  have m: "mset (serve_paths (build_paths xs) order) = mset xs"
    by (simp add: serve_paths_mset mset_build_paths)
  then have "set (serve_paths (build_paths xs) order) = set xs" by (rule mset_eq_setD)
  moreover from m assms(1) have "distinct (serve_paths (build_paths xs) order)"
    by (metis mset_eq_imp_distinct_iff)
  ultimately show ?thesis using assms(2) by simp
qed

lemma window_last:
  assumes "s + k < length xs" "1 \<le> k"
  shows "take k (drop s xs) \<noteq> [] \<and> last (take k (drop s xs)) = xs ! (s + k - 1)
         \<and> length (take k (drop s xs)) = k"
proof -
  have l: "length (take k (drop s xs)) = k" using assms by simp
  then have ne: "take k (drop s xs) \<noteq> []" using assms(2) by auto
  have "last (take k (drop s xs)) = take k (drop s xs) ! (k - 1)"
    using ne l by (simp add: last_conv_nth)
  also have "\<dots> = xs ! (s + k - 1)" using assms by simp
  finally show ?thesis using l ne by simp
qed

lemma window_next:
  fixes ids :: "string list"
  assumes "distinct ids" "[] \<notin> set ids" "1 \<le> k"
  defines "S \<equiv> timeline_start_index ids"
  defines "N \<equiv> \<lambda>cursor. (let s = S cursor; sl = py_slice ids (int s) (int s + int k)
      in if sl \<noteq> [] \<and> s + length sl < length ids then Some (last sl) else None)"
  shows "N cursor = None \<Longrightarrow> length ids \<le> S cursor + k"
    and "N cursor = Some c \<Longrightarrow> S cursor + k < length ids \<and> S (Some c) = S cursor + k"
proof -
  have le: "S cursor \<le> length ids" unfolding S_def by (rule timeline_start_le)
  have w: "py_slice ids (int (S cursor)) (int (S cursor) + int k) = take k (drop (S cursor) ids)"
    using le by (rule py_slice_window)
  show "length ids \<le> S cursor + k" if "N cursor = None"
  proof (rule ccontr)
    assume "\<not> length ids \<le> S cursor + k"
    then have lt: "S cursor + k < length ids" by simp
    from window_last [OF lt assms(3)] lt that show False
      by (simp add: N_def Let_def w)
  qed
  show "S cursor + k < length ids \<and> S (Some c) = S cursor + k" if n: "N cursor = Some c"
  proof -
    from n have ne: "take k (drop (S cursor) ids) \<noteq> []"
      and lt': "S cursor + length (take k (drop (S cursor) ids)) < length ids"
      and c: "c = last (take k (drop (S cursor) ids))"
      by (auto simp: N_def Let_def w split: if_splits)
    have lt: "S cursor + k < length ids"
    proof (rule ccontr)
      assume "\<not> S cursor + k < length ids"
      then have "length (take k (drop (S cursor) ids)) = length ids - S cursor" by simp
      with lt' show False by simp
    qed
    from window_last [OF lt assms(3)] c have c': "c = ids ! (S cursor + k - 1)" by simp
    have i: "S cursor + k - 1 < length ids" using lt by simp
    then have "ids ! (S cursor + k - 1) \<noteq> []" using assms(2) by (metis nth_mem)
    from timeline_start_nth [OF assms(1) i this] assms(3)
    have "S (Some c) = S cursor + k" by (simp add: S_def c')
    with lt show ?thesis by simp
  qed
qed

lemma timeline_chain_complete:
  fixes k :: nat and order :: string and disk :: disk and r :: string
  assumes cons: "cache_consistent disk c1"
    and ok: "snapshot_paths_distinct disk r" and k: "1 \<le> k"
  defines "P \<equiv> serve_paths (build_paths (scan_paths (disk r))) order"
  assumes fuel: "length P < fuel"
  shows "chain_pages fuel (timeline_call disk clock r (int k) order) i c1 None = Some (map timeline_ref P)"
proof -
  from ok have d: "distinct P" "[] \<notin> set P"
    using served_sequence_distinct [of "scan_paths (disk r)" order]
    by (simp_all add: snapshot_paths_distinct_def P_def)
  let ?S = "timeline_start_index P"
  let ?N = "\<lambda>cursor. tl_nextCursor (timeline_page P cursor (int k))"
  have step: "fst (timeline_call disk clock r (int k) order j st cursor)
        = (map timeline_ref (take k (drop (?S cursor) P)), ?N cursor)
      \<and> cache_consistent disk (snd (timeline_call disk clock r (int k) order j st cursor))"
    if "cache_consistent disk st" for j st cursor
    using that timeline_start_le [of P cursor]
    by (simp add: timeline_call_def split_beta timeline_sections_page
          sorted_image_paths_consistent P_def [symmetric] timeline_page_items py_slice_window)
  have "chain_pages fuel (timeline_call disk clock r (int k) order) i c1 None
      = Some (map timeline_ref (drop (?S None) P))"
  proof (rule chain_pages_collects [where Inv = "cache_consistent disk" and k = k and N = ?N])
    show "length P - ?S None < fuel" using fuel by simp
  qed (use step cons k window_next [OF d k] in \<open>simp_all add: timeline_page_next\<close>)
  then show ?thesis by (simp add: timeline_start_index_def)
qed


lemma group_paths_setdefault:
  "group_paths (setdefault_append k v by_group) = add_mset (item_path v) (group_paths by_group)"
  by (induction by_group) (auto simp: group_paths_def)

lemma group_paths_step:
  "group_paths (hierarchy_scan_step by_group relative) \<subseteq># add_mset relative (group_paths by_group)"
  by (auto simp: hierarchy_scan_step_def Let_def group_paths_setdefault split: prod.splits)

lemma group_paths_foldl:
  "group_paths (foldl hierarchy_scan_step by_group xs) \<subseteq># group_paths by_group + mset xs"
proof (induction xs arbitrary: by_group)
  case Nil show ?case by simp
next
  case (Cons x xs)
  have "group_paths (foldl hierarchy_scan_step (hierarchy_scan_step by_group x) xs)
      \<subseteq># group_paths (hierarchy_scan_step by_group x) + mset xs" by (rule Cons.IH)
  also have "\<dots> \<subseteq># add_mset x (group_paths by_group) + mset xs"
    using group_paths_step [of by_group x] by (simp add: subset_mset.add_right_mono)
  finally show ?case by simp
qed

lemma group_paths_member:
  "(k, l) \<in> set by_group \<Longrightarrow> mset (map item_path l) \<subseteq># group_paths by_group"
proof (induction by_group)
  case Nil then show ?case by simp
next
  case (Cons a by_group)
  then show ?case
    by (auto simp: group_paths_def simp del: mset_map intro: subset_mset.order_trans)
qed

lemma submultiset_distinct:
  assumes "mset xs \<subseteq># mset ys" "distinct ys"
  shows "distinct xs \<and> set xs \<subseteq> set ys"
proof -
  have "count (mset xs) a \<le> 1" for a
    using mset_subset_eq_count [OF assms(1), of a] assms(2)
    by (metis distinct_count_atmost_1 le_trans order_refl zero_le_one)
  then have "distinct xs"
    by (metis distinct_count_atmost_1 count_eq_zero_iff le_antisym set_mset_mset
          One_nat_def Suc_leI count_greater_zero_iff)
  moreover have "set xs \<subseteq> set ys" using assms(1) set_mset_mono by fastforce
  ultimately show ?thesis by simp
qed

lemma scan_hierarchy_group_distinct:
  assumes "distinct xs" "[] \<notin> set xs"
    and "map_of (images_by_group (scan_hierarchy xs)) g = Some imgs"
  shows "distinct (map item_path imgs) \<and> [] \<notin> set (map item_path imgs)"
proof -
  from assms(3) have "(g, imgs) \<in> set (images_by_group (scan_hierarchy xs))"
    by (rule map_of_SomeD)
  then obtain l where l: "(g, l) \<in> set (foldl hierarchy_scan_step [] xs)"
    and imgs: "imgs = sort_reverse group_sort_key l"
    by (auto simp: scan_hierarchy_def Let_def)
  have "mset (map item_path imgs) = mset (map item_path l)"
    by (simp add: imgs sort_reverse_def)
  also have "\<dots> \<subseteq># group_paths (foldl hierarchy_scan_step [] xs)"
    using l by (rule group_paths_member)
  also have "\<dots> \<subseteq># mset xs"
    using group_paths_foldl [of "[]" xs] by (simp add: group_paths_def)
  finally have "mset (map item_path imgs) \<subseteq># mset xs" .
  from submultiset_distinct [OF this assms(1)] assms(2) show ?thesis by auto
qed

lemma group_sequence_consistent:
  assumes "cache_consistent disk cache"
  shows "group_sequence disk now cache r g order =
     (case map_of (images_by_group (scan_hierarchy (scan_paths (disk r)))) g of
        None \<Rightarrow> [] | Some imgs \<Rightarrow> if order = ''desc'' then imgs else rev imgs)"
  using assms by (simp add: group_sequence_def build_hierarchy_consistent)

lemma group_sequence_distinct:
  assumes "cache_consistent disk cache" "snapshot_paths_distinct disk r"
  shows "distinct (map item_path (group_sequence disk now cache r g order))
     \<and> [] \<notin> set (map item_path (group_sequence disk now cache r g order))"
proof (cases "map_of (images_by_group (scan_hierarchy (scan_paths (disk r)))) g")
  case None
  with assms(1) show ?thesis by (simp add: group_sequence_consistent)
next
  case (Some imgs)
  from scan_hierarchy_group_distinct [OF _ _ Some] assms(2)
  have "distinct (map item_path imgs) \<and> [] \<notin> set (map item_path imgs)"
    by (simp add: snapshot_paths_distinct_def)
  with assms(1) Some show ?thesis
    by (simp add: group_sequence_consistent rev_map [symmetric])
qed

lemma group_page_empty: "group_page [] cursor limit = \<lparr>images = [], nextCursor = None\<rparr>"
  by (simp add: group_page_def py_slice_def Let_def)

lemma group_images_payload_sequence:
  "fst (group_images_payload disk now cache r g cursor limit order) =
     group_page (group_sequence disk now cache r g order) cursor limit"
  by (simp add: group_images_payload_page group_sequence_def group_page_empty split: option.splits)

lemma py_slice_map: "py_slice (map f xs) i j = map f (py_slice xs i j)"
  by (simp add: py_slice_def Let_def take_map drop_map)

lemma group_chain_complete:
  fixes k :: nat and order g :: string and disk :: disk and r :: string and now :: real
    and c2 :: image_cache
  assumes cons: "cache_consistent disk c1" and cons2: "cache_consistent disk c2"
    and ok: "snapshot_paths_distinct disk r" and k: "1 \<le> k"
  defines "G \<equiv> group_sequence disk now c2 r g order"
  assumes fuel: "length G < fuel"
  shows "chain_pages fuel (group_call disk clock r g (int k) order) i c1 None = Some (map group_ref G)"
proof -
  let ?ids = "map item_path G"
  from group_sequence_distinct [OF cons2 ok] have d: "distinct ?ids" "[] \<notin> set ?ids"
    by (simp_all add: G_def)
  have same: "group_sequence disk t st r g order = G" if "cache_consistent disk st" for t st
    using that cons2 by (simp add: G_def group_sequence_consistent)
  let ?S = "timeline_start_index ?ids"
  let ?N = "\<lambda>cursor. nextCursor (group_page G cursor (int k))"
  have step: "fst (group_call disk clock r g (int k) order j st cursor)
        = (map group_ref (take k (drop (?S cursor) G)), ?N cursor)
      \<and> cache_consistent disk (snd (group_call disk clock r g (int k) order j st cursor))"
    if "cache_consistent disk st" for j st cursor
    using that timeline_start_le [of ?ids cursor]
    by (simp add: group_call_def split_beta group_images_payload_sequence
          group_images_payload_cache build_hierarchy_consistent same group_page_items
          group_start_timeline py_slice_window)
  have nxt: "?N cursor = (let s = ?S cursor; sl = py_slice ?ids (int s) (int s + int k)
      in if sl \<noteq> [] \<and> s + length sl < length ?ids then Some (last sl) else None)" for cursor
    by (simp add: group_page_next group_start_timeline Let_def py_slice_map last_map)
  have "chain_pages fuel (group_call disk clock r g (int k) order) i c1 None
      = Some (map group_ref (drop (?S None) G))"
  proof (rule chain_pages_collects [where Inv = "cache_consistent disk" and k = k and N = ?N])
    show "length G - ?S None < fuel" using fuel by simp
  qed (use step cons k window_next [OF d k] in \<open>simp_all add: nxt\<close>)
  then show ?thesis by (simp add: timeline_start_index_def)
qed


lemma timeline_single_call:
  "timeline_items (timeline_page paths None (int (length paths))) = map timeline_ref paths"
  by (simp add: timeline_page_items timeline_start_index_def py_slice_all)

lemma group_single_call:
  "images (group_page sequence None (int (length sequence))) = map group_ref sequence"
  by (simp add: group_page_items group_start_index_def py_slice_all)

lemma ref_path_ref: "ref_path (timeline_ref p) = p" "ref_path (group_ref item) = item_path item"
  by (simp_all add: timeline_ref_def group_ref_def Let_def)

lemma ref_path_timeline_ref: "map ref_path (map timeline_ref paths) = paths"
  by (simp add: timeline_ref_def Let_def comp_def)

lemma ref_path_group_ref: "map ref_path (map group_ref sequence) = map item_path sequence"
  by (simp add: group_ref_def comp_def)

lemma timeline_next_cursor:
  "tl_nextCursor (timeline_page paths cursor limit) =
     next_cursor_of_page (timeline_start_index paths cursor) (length paths)
       (map ref_path (timeline_items (timeline_page paths cursor limit)))"
proof -
  let ?s = "timeline_start_index paths cursor"
  let ?sl = "py_slice paths (int ?s) (int ?s + limit)"
  have "?s + length ?sl \<le> length paths"
    using timeline_start_le by (rule py_slice_length)
  moreover have "map ref_path (timeline_items (timeline_page paths cursor limit)) = ?sl"
    by (simp add: timeline_page_items ref_path_timeline_ref del: map_map)
  ultimately show ?thesis
    by (auto simp: timeline_page_next next_cursor_of_page_def Let_def)
qed

lemma group_next_cursor:
  "nextCursor (group_page sequence cursor limit) =
     next_cursor_of_page (group_start_index sequence cursor) (length sequence)
       (map ref_path (images (group_page sequence cursor limit)))"
proof -
  let ?s = "group_start_index sequence cursor"
  let ?sl = "py_slice sequence (int ?s) (int ?s + limit)"
  have "?s \<le> length sequence"
    using timeline_start_le [of "map item_path sequence" cursor] by (simp add: group_start_timeline)
  then have "?s + length ?sl \<le> length sequence"
    by (rule py_slice_length)
  moreover have "map ref_path (images (group_page sequence cursor limit)) = map item_path ?sl"
    by (simp add: group_page_items ref_path_group_ref del: map_map)
  ultimately show ?thesis
    by (auto simp: group_page_next next_cursor_of_page_def Let_def last_map)
qed

text \<open>
  Claim C4. On an unchanged snapshot in which every image has its own non-empty path, and for
  every page size \<open>k \<ge> 1\<close>: a client that starts without a cursor and feeds each
  \<open>nextCursor\<close> into the next call ends after at most \<open>n\<close> further calls and has then
  collected exactly the items of one call with limit \<open>n\<close>, the length of the sequence, in
  the same order; these are the items of the whole sequence, each once. This holds for the
  timeline and for the images of a group, whatever the cache does between the calls. For
  every cursor and limit, \<open>nextCursor\<close> is the identifier of the last item of the page, and
  it is absent exactly when the page is empty or ends at the end of the sequence.
\<close>

theorem pagination_chain_complete:
  fixes k :: nat and disk :: disk and r g order :: string and now :: real and c1 c2 :: image_cache
  assumes "cache_consistent disk c1" and "cache_consistent disk c2"
    and "snapshot_paths_distinct disk r" and "1 \<le> k"
  defines "paths \<equiv> timeline_sequence disk now c2 r order"
    and "members \<equiv> group_sequence disk now c2 r g order"
  shows
    "(length paths < fuel \<longrightarrow>
        chain_pages fuel (timeline_call disk clock r (int k) order) i c1 None =
          Some (timeline_items (fst (timeline_sections disk now c2 r None (int (length paths)) order)))) \<and>
     map ref_path (timeline_items (fst (timeline_sections disk now c2 r None (int (length paths)) order)))
       = paths \<and>
     distinct paths \<and>
     (length members < fuel \<longrightarrow>
        chain_pages fuel (group_call disk clock r g (int k) order) i c1 None =
          Some (images (fst (group_images_payload disk now c2 r g None (int (length members)) order)))) \<and>
     map ref_path (images (fst (group_images_payload disk now c2 r g None (int (length members)) order)))
       = map item_path members \<and>
     distinct (map item_path members) \<and>
     (\<forall>cursor limit.
        tl_nextCursor (fst (timeline_sections disk now c2 r cursor limit order)) =
          next_cursor_of_page (timeline_start_index paths cursor) (length paths)
            (map ref_path (timeline_items (fst (timeline_sections disk now c2 r cursor limit order))))) \<and>
     (\<forall>cursor limit.
        nextCursor (fst (group_images_payload disk now c2 r g cursor limit order)) =
          next_cursor_of_page (group_start_index members cursor) (length members)
            (map ref_path (images (fst (group_images_payload disk now c2 r g cursor limit order)))))"
proof -
  have p: "paths = serve_paths (build_paths (scan_paths (disk r))) order"
    using assms(2) by (simp add: paths_def timeline_sequence_def sorted_image_paths_consistent)
  have single: "timeline_items (fst (timeline_sections disk now c2 r None (int (length paths)) order))
      = map timeline_ref paths"
    by (simp add: timeline_sections_page paths_def timeline_sequence_def timeline_single_call)
  have gsingle: "images (fst (group_images_payload disk now c2 r g None (int (length members)) order))
      = map group_ref members"
    by (simp add: group_images_payload_sequence members_def group_single_call)
  have "distinct paths"
    using served_sequence_distinct [of "scan_paths (disk r)" order] assms(3)
    by (simp add: p snapshot_paths_distinct_def)
  moreover have "distinct (map item_path members)"
    using group_sequence_distinct [OF assms(2,3)] by (simp add: members_def)
  moreover have "chain_pages fuel (timeline_call disk clock r (int k) order) i c1 None
      = Some (map timeline_ref paths)" if "length paths < fuel"
    using timeline_chain_complete [OF assms(1,3,4)] that by (simp add: p)
  moreover have "chain_pages fuel (group_call disk clock r g (int k) order) i c1 None
      = Some (map group_ref members)" if "length members < fuel"
    using group_chain_complete [OF assms(1,2,3,4)] that by (simp add: members_def)
  ultimately show ?thesis
    by (simp add: timeline_single_call group_single_call ref_path_ref comp_def
          timeline_sections_page group_images_payload_sequence timeline_next_cursor
          group_next_cursor paths_def [symmetric] members_def [symmetric]
          timeline_sequence_def [symmetric])
qed

lemma same_day_lengths:
  "length (timeline_sequence same_day_disk 0 IMAGE_CACHE ''/pictures'' ''desc'') = 2"
  "length (group_sequence same_day_disk 0 IMAGE_CACHE ''/pictures'' ''2022/2022-05-01'' ''desc'') = 2"
  by code_simp+

lemma same_day_distinct: "snapshot_paths_distinct same_day_disk ''/pictures''"
  by code_simp

theorem pagination_chain_complete_witness:
  "cache_consistent same_day_disk IMAGE_CACHE \<and>
   snapshot_paths_distinct same_day_disk ''/pictures'' \<and>
   chain_pages 3 (timeline_call same_day_disk slow_clock ''/pictures'' 1 ''desc'') 0 IMAGE_CACHE None =
     Some (timeline_items (fst (timeline_sections same_day_disk 0 IMAGE_CACHE ''/pictures'' None 2 ''desc''))) \<and>
   chain_pages 3 (group_call same_day_disk slow_clock ''/pictures'' ''2022/2022-05-01'' 1 ''desc'') 0
       IMAGE_CACHE None =
     Some (images (fst (group_images_payload same_day_disk 0 IMAGE_CACHE ''/pictures''
        ''2022/2022-05-01'' None 2 ''desc'')))"
proof -
  have k: "1 \<le> (1::nat)" by simp
  note t = pagination_chain_complete [OF initial_cache_consistent initial_cache_consistent
      same_day_distinct k, of 0 "''desc''" 3 slow_clock 0 "''2022/2022-05-01''",
      unfolded same_day_lengths]
  from t initial_cache_consistent same_day_distinct show ?thesis by simp
qed

subsection \<open>\<open>int\<close> on digit runs\<close>

text \<open>
  The date heuristics read their tokens with \<open>int_of_digits\<close>; on the tokens they meet,
  non-empty runs of digits, this is what \<open>int\<close> returns.
\<close>

lemma digit_not_special:
  "is_digit c \<Longrightarrow> \<not> is_space c \<and> c \<noteq> CHR ''-'' \<and> c \<noteq> CHR ''+'' \<and> c \<noteq> CHR ''_''"
  by (auto simp: is_digit_def is_space_def)

lemma strip_digits:
  assumes "list_all is_digit s"
  shows "strip s = s"
proof -
  have d: "dropWhile is_space t = t" if "list_all is_digit t" for t
    using that by (cases t) (auto dest: digit_not_special)
  have "list_all is_digit (rev s)" using assms by (simp add: list_all_iff)
  with d [of s] d [of "rev s"] assms show ?thesis by (simp add: strip_def)
qed

lemma grouped_digits_digits: "s \<noteq> [] \<Longrightarrow> list_all is_digit s \<Longrightarrow> grouped_digits s"
  by (induction s rule: grouped_digits.induct) (auto dest: digit_not_special)

lemma takeWhile_digits:
  "list_all is_digit s \<Longrightarrow> takeWhile (\<lambda>c. is_digit c \<or> c = CHR ''_'') s = s"
  by (induction s) auto

lemma py_int_digits:
  assumes "s \<noteq> []" "list_all is_digit s" "length s \<le> int_max_str_digits"
  shows "py_int s = Inr (int_of_digits s)"
proof -
  obtain c r where s: "s = c # r" using assms(1) by (cases s) auto
  with assms(2) have c: "c \<noteq> CHR ''-''" "c \<noteq> CHR ''+''"
    by (auto dest: digit_not_special)
  have f: "filter is_digit s = s" using assms(2) by (simp add: list_all_iff)
  have st: "strip (c # r) = c # r" using strip_digits [OF assms(2)] by (simp add: s)
  have g: "grouped_digits (c # r)"
    using grouped_digits_digits [OF assms(1) assms(2)] by (simp add: s)
  have f': "filter is_digit (c # r) = c # r" using f by (simp only: s)
  have tw: "takeWhile (\<lambda>c. is_digit c \<or> c = CHR ''_'') (c # r) = c # r"
    using takeWhile_digits [OF assms(2)] by (simp only: s)
  have len: "\<not> int_max_str_digits < length (c # r)" using assms(3) by (simp only: s not_less)
  show ?thesis
    unfolding s py_int_def Let_def st using c
    by (simp only: list.case if_False if_True prod.case tw f' g len simp_thms mult_1)
qed

lemma py_int_too_long:
  assumes "list_all is_digit s" "int_max_str_digits < length s"
  shows "py_int s = Inl (ValueError ''Exceeds the limit (4300 digits) for integer string conversion'')"
proof -
  from assms(2) have ne: "s \<noteq> []" by auto
  then obtain c r where s: "s = c # r" by (cases s) auto
  with assms(1) have c: "c \<noteq> CHR ''-''" "c \<noteq> CHR ''+''"
    by (auto dest: digit_not_special)
  have f: "filter is_digit s = s" using assms(1) by (simp add: list_all_iff)
  have st: "strip (c # r) = c # r" using strip_digits [OF assms(1)] by (simp add: s)
  have g: "grouped_digits (c # r)"
    using grouped_digits_digits [OF ne assms(1)] by (simp add: s)
  have f': "filter is_digit (c # r) = c # r" using f by (simp only: s)
  have tw: "takeWhile (\<lambda>c. is_digit c \<or> c = CHR ''_'') (c # r) = c # r"
    using takeWhile_digits [OF assms(1)] by (simp only: s)
  have len: "int_max_str_digits < length (c # r)" using assms(2) by (simp only: s)
  show ?thesis
    unfolding s py_int_def Let_def st using c
    by (simp only: list.case if_False if_True prod.case tw f' g len simp_thms)
qed

text \<open>
  The separator \<open>U+001C\<close> is white space for \<open>str.strip\<close> but not for \<open>int\<close>; the blank
  \<open>U+00A0\<close> is skipped.
\<close>

lemma py_int_examples:
  "py_int [CHR 0x1C, CHR ''2'', CHR ''5''] = Inl (ValueError ''invalid literal for int() with base 10'')"
  "py_int [CHR 0xA0, CHR ''5'', CHR 0x0A] = Inr 5"
  "py_int '' +1_000  '' = Inr 1000"
  "py_int ''-007'' = Inr (- 7)"
  "py_int ''1__0'' = Inl (ValueError ''invalid literal for int() with base 10'')"
  "py_int ''5x'' = Inl (ValueError ''invalid literal for int() with base 10'')"
  "py_int [] = Inl (ValueError ''invalid literal for int() with base 10'')"
  by code_simp+

subsection \<open>The page limit of a request\<close>

lemma py_slice_length_le: "0 \<le> l \<Longrightarrow> length (py_slice xs (int s) (int s + l)) \<le> nat l"
  by (auto simp: py_slice_def Let_def min_def)

lemma timeline_page_length:
  "0 \<le> limit \<Longrightarrow> length (timeline_items (timeline_page paths cursor limit)) \<le> nat limit"
  by (simp add: timeline_page_items py_slice_length_le)

lemma group_page_length:
  "0 \<le> limit \<Longrightarrow> length (images (group_page sequence cursor limit)) \<le> nat limit"
  by (simp add: group_page_items py_slice_length_le)

lemma clamp_range: "20 \<le> max 20 (min 500 (v::int)) \<and> max 20 (min 500 v) \<le> 500"
  by simp

lemma api_timeline_result:
  assumes "api_timeline disk now cache r ps = (Inr payload, cache')"
  shows "\<exists>cursor limit order.
           timeline_sections disk now cache r cursor limit order = (payload, cache') \<and>
           20 \<le> limit \<and> limit \<le> 500 \<and>
           (ps ''limit'' = None \<longrightarrow> limit = 120) \<and>
           (\<forall>s rest v. ps ''limit'' = Some (s # rest) \<and> s \<noteq> [] \<and> py_int s = Inr v
               \<longrightarrow> limit = max 20 (min 500 v))"
proof -
  from assms obtain cursor limit_str v order where
    l: "first_item (params_get ps ''limit'' ['''']) = Inr limit_str"
    and v: "(if limit_str \<noteq> [] then py_int limit_str else Inr 120) = Inr v"
    and t: "timeline_sections disk now cache r cursor (max 20 (min 500 v)) order = (payload, cache')"
    by (auto simp: api_timeline_def Let_def split: sum.splits prod.splits)
  have "ps ''limit'' = None \<longrightarrow> max 20 (min 500 v) = 120"
    using l v by (auto simp: first_item_def params_get_def split: if_splits)
  moreover have "\<forall>s rest w. ps ''limit'' = Some (s # rest) \<and> s \<noteq> [] \<and> py_int s = Inr w
      \<longrightarrow> max 20 (min 500 v) = max 20 (min 500 w)"
    using l v by (auto simp: first_item_def params_get_def split: if_splits)
  ultimately show ?thesis using t clamp_range [of v]
    by (intro exI [where x = "max 20 (min 500 v)"] exI conjI) (assumption | simp)+
qed

lemma api_group_images_result:
  assumes "api_group_images disk now cache r ps = (Inr payload, cache')"
  shows "\<exists>group_key cursor limit order.
           group_images_payload disk now cache r group_key cursor limit order = (payload, cache') \<and>
           20 \<le> limit \<and> limit \<le> 500 \<and>
           (ps ''limit'' = None \<longrightarrow> limit = 120) \<and>
           (\<forall>s rest v. ps ''limit'' = Some (s # rest) \<and> s \<noteq> [] \<and> py_int s = Inr v
               \<longrightarrow> limit = max 20 (min 500 v))"
proof -
  from assms obtain group_key cursor limit_str v order where
    l: "first_item (params_get ps ''limit'' ['''']) = Inr limit_str"
    and v: "(if limit_str \<noteq> [] then py_int limit_str else Inr 120) = Inr v"
    and t: "group_images_payload disk now cache r group_key cursor (max 20 (min 500 v)) order
        = (payload, cache')"
    by (auto simp: api_group_images_def Let_def split: sum.splits prod.splits if_splits)
  have "ps ''limit'' = None \<longrightarrow> max 20 (min 500 v) = 120"
    using l v by (auto simp: first_item_def params_get_def split: if_splits)
  moreover have "\<forall>s rest w. ps ''limit'' = Some (s # rest) \<and> s \<noteq> [] \<and> py_int s = Inr w
      \<longrightarrow> max 20 (min 500 v) = max 20 (min 500 w)"
    using l v by (auto simp: first_item_def params_get_def split: if_splits)
  ultimately show ?thesis using t clamp_range [of v]
    by (intro exI [where x = "max 20 (min 500 v)"] exI conjI) (assumption | simp)+
qed


text \<open>
  Claim C9. Whenever the timeline or the group-images handler answers with a page, the page
  was computed with a limit between 20 and 500: 120 when the request has no \<open>limit\<close>
  parameter, and otherwise the requested number raised to 20 or lowered to 500. So no page has
  more than 500 items, and a requested limit below 20 acts as 20.
\<close>

theorem api_limit_clamped:
  "(api_timeline disk now cache r ps = (Inr payload, cache') \<longrightarrow>
      (\<exists>cursor limit order.
          timeline_sections disk now cache r cursor limit order = (payload, cache') \<and>
          20 \<le> limit \<and> limit \<le> 500 \<and>
          (ps ''limit'' = None \<longrightarrow> limit = 120) \<and>
          (\<forall>s rest v. ps ''limit'' = Some (s # rest) \<and> s \<noteq> [] \<and> py_int s = Inr v
              \<longrightarrow> limit = max 20 (min 500 v))) \<and>
      length (timeline_items payload) \<le> 500) \<and>
   (api_group_images disk now cache r ps = (Inr gpayload, gcache') \<longrightarrow>
      (\<exists>group_key cursor limit order.
          group_images_payload disk now cache r group_key cursor limit order = (gpayload, gcache') \<and>
          20 \<le> limit \<and> limit \<le> 500 \<and>
          (ps ''limit'' = None \<longrightarrow> limit = 120) \<and>
          (\<forall>s rest v. ps ''limit'' = Some (s # rest) \<and> s \<noteq> [] \<and> py_int s = Inr v
              \<longrightarrow> limit = max 20 (min 500 v))) \<and>
      length (images gpayload) \<le> 500)"
proof (intro conjI impI)
  assume a: "api_timeline disk now cache r ps = (Inr payload, cache')"
  from api_timeline_result [OF a]
  show "\<exists>cursor limit order.
          timeline_sections disk now cache r cursor limit order = (payload, cache') \<and>
          20 \<le> limit \<and> limit \<le> 500 \<and>
          (ps ''limit'' = None \<longrightarrow> limit = 120) \<and>
          (\<forall>s rest v. ps ''limit'' = Some (s # rest) \<and> s \<noteq> [] \<and> py_int s = Inr v
              \<longrightarrow> limit = max 20 (min 500 v))" .
  from api_timeline_result [OF a] obtain cursor limit order where
    t: "timeline_sections disk now cache r cursor limit order = (payload, cache')"
    and l: "20 \<le> limit" "limit \<le> 500" by blast
  from t have "payload = timeline_page (fst (sorted_image_paths disk now cache r order)) cursor limit"
    using timeline_sections_page(1) [of disk now cache r cursor limit order] by simp
  with timeline_page_length [of limit] l show "length (timeline_items payload) \<le> 500"
    by (metis le_trans nat_le_iff of_nat_numeral order.trans zero_le_numeral)
next
  assume a: "api_group_images disk now cache r ps = (Inr gpayload, gcache')"
  from api_group_images_result [OF a]
  show "\<exists>group_key cursor limit order.
          group_images_payload disk now cache r group_key cursor limit order = (gpayload, gcache') \<and>
          20 \<le> limit \<and> limit \<le> 500 \<and>
          (ps ''limit'' = None \<longrightarrow> limit = 120) \<and>
          (\<forall>s rest v. ps ''limit'' = Some (s # rest) \<and> s \<noteq> [] \<and> py_int s = Inr v
              \<longrightarrow> limit = max 20 (min 500 v))" .
  from api_group_images_result [OF a] obtain group_key cursor limit order where
    t: "group_images_payload disk now cache r group_key cursor limit order = (gpayload, gcache')"
    and l: "20 \<le> limit" "limit \<le> 500" by blast
  from t have "gpayload = group_page (group_sequence disk now cache r group_key order) cursor limit"
    using group_images_payload_sequence [of disk now cache r group_key cursor limit order] by simp
  with group_page_length [of limit] l show "length (images gpayload) \<le> 500"
    by (metis le_trans nat_le_iff of_nat_numeral order.trans zero_le_numeral)
qed

lemma py_int_five: "py_int ''5'' = Inr 5"
  by code_simp

lemma many_timeline_request:
  "api_timeline many_disk 0 IMAGE_CACHE ''/pictures'' [''limit'' \<mapsto> [''5'']] =
     (Inr (fst (timeline_sections many_disk 0 IMAGE_CACHE ''/pictures'' None 20 ''desc'')),
      snd (timeline_sections many_disk 0 IMAGE_CACHE ''/pictures'' None 20 ''desc''))"
  by (simp add: api_timeline_def first_item_def params_get_def params_get_cursor_def py_int_five
        lower_def lower_char_def split_beta Let_def)

lemma many_group_request:
  "api_group_images many_disk 0 IMAGE_CACHE ''/pictures''
       [''limit'' \<mapsto> [''5''], ''group'' \<mapsto> [''misc/all'']] =
     (Inr (fst (group_images_payload many_disk 0 IMAGE_CACHE ''/pictures'' ''misc/all'' None 20 ''desc'')),
      snd (group_images_payload many_disk 0 IMAGE_CACHE ''/pictures'' ''misc/all'' None 20 ''desc''))"
  by (simp add: api_group_images_def first_item_def params_get_def params_get_cursor_def
        py_int_five lower_def lower_char_def split_beta Let_def)

lemma many_page_lengths:
  "length (timeline_items (fst (timeline_sections many_disk 0 IMAGE_CACHE ''/pictures'' None 20 ''desc''))) = 20"
  "length (images (fst (group_images_payload many_disk 0 IMAGE_CACHE ''/pictures'' ''misc/all'' None 20 ''desc''))) = 20"
  by code_simp+

theorem api_limit_clamped_witness:
  "api_timeline many_disk 0 IMAGE_CACHE ''/pictures'' [''limit'' \<mapsto> [''5'']] =
     (Inr (fst (timeline_sections many_disk 0 IMAGE_CACHE ''/pictures'' None 20 ''desc'')),
      snd (timeline_sections many_disk 0 IMAGE_CACHE ''/pictures'' None 20 ''desc'')) \<and>
   length (timeline_items (fst (timeline_sections many_disk 0 IMAGE_CACHE ''/pictures'' None 20 ''desc'')))
     = 20 \<and>
   length (timeline_items (fst (timeline_sections many_disk 0 IMAGE_CACHE ''/pictures'' None 20 ''desc'')))
     \<le> 500 \<and>
   api_group_images many_disk 0 IMAGE_CACHE ''/pictures''
       [''limit'' \<mapsto> [''5''], ''group'' \<mapsto> [''misc/all'']] =
     (Inr (fst (group_images_payload many_disk 0 IMAGE_CACHE ''/pictures'' ''misc/all'' None 20 ''desc'')),
      snd (group_images_payload many_disk 0 IMAGE_CACHE ''/pictures'' ''misc/all'' None 20 ''desc'')) \<and>
   length (images (fst (group_images_payload many_disk 0 IMAGE_CACHE ''/pictures'' ''misc/all'' None 20
      ''desc''))) \<le> 500"
proof -
  note t = api_limit_clamped [THEN conjunct1, THEN mp, OF many_timeline_request, THEN conjunct2]
  note g = api_limit_clamped [THEN conjunct2, THEN mp, OF many_group_request, THEN conjunct2]
  from t g many_timeline_request many_group_request many_page_lengths(1) show ?thesis
    by blast
qed

subsection \<open>The next folder of the last top-level folder\<close>

lemma last_folder_siblings: "iter_directories last_folder_tree [] = Inr [[''a''], [''b'']]"
  by code_simp

text \<open>
  Claim C7 says that \<open>nextFolderImage\<close> is absent when the target is the last top-level
  directory and only earlier siblings hold images. The code answers otherwise: for the target
  \<open>b\<close>, the last of the two top-level folders \<open>a\<close> and \<open>b\<close>, no sibling follows, the parent is
  the root, the root is looked up among its own subdirectories, the lookup fails and yields
  index \<open>-1\<close>, and the search restarts at the first top-level folder, whose image is returned.
\<close>

theorem directory_payload_last_folder_wraps:
  "directory_payload last_folder_tree [''b''] =
     Inr \<lparr>list_path = ''b'', breadcrumbs = [(''Home'', []), (''b'', ''b'')],
          directories = [], list_images = [], totalImages = 0,
          nextFolderImage = Some ''a/x.jpg''\<rparr>"
  by code_simp

subsection \<open>The thumbnail cache key\<close>

lemma digit_char_is_digit: "d < 10 \<Longrightarrow> is_digit (digit_char d)"
  by (simp add: is_digit_def digit_char_def less_eq_char_def)

lemma str_nat_digits: "str_nat n \<noteq> [] \<and> list_all is_digit (str_nat n)"
proof (induction n rule: str_nat.induct)
  case (1 n)
  show ?case
  proof (cases "n < 10")
    case True
    then show ?thesis by (subst (1 2) str_nat.simps) (simp add: digit_char_is_digit)
  next
    case False
    with 1 show ?thesis by (subst (1 2) str_nat.simps) (simp add: digit_char_is_digit)
  qed
qed

lemma int_of_digits_str_nat: "int_of_digits (str_nat n) = int n"
proof (induction n rule: str_nat.induct)
  case (1 n)
  show ?case
  proof (cases "n < 10")
    case True
    then show ?thesis
      by (subst str_nat.simps) (simp add: int_of_digits_def digit_val_digit_char)
  next
    case False
    then have ih: "int_of_digits (str_nat (n div 10)) = int (n div 10)" by (rule 1)
    have d: "int_of_digits [digit_char (n mod 10)] = int (n mod 10)"
      by (simp add: int_of_digits_def digit_val_digit_char)
    have e: "int (n div 10) * 10 + int (n mod 10) = int n" by presburger
    have "str_nat n = str_nat (n div 10) @ [digit_char (n mod 10)]"
      using False by (subst str_nat.simps) simp
    then show ?thesis
      by (simp only: int_of_digits_append ih d e length_Cons list.size power_one_right
            One_nat_def [symmetric])
  qed
qed

lemma str_nat_inj: "str_nat m = str_nat n \<Longrightarrow> m = n"
  by (metis int_of_digits_str_nat of_nat_eq_iff)

lemma str_nat_no_minus: "hd (str_nat n) \<noteq> CHR ''-''"
proof -
  from str_nat_digits [of n] have "is_digit (hd (str_nat n))"
    by (cases "str_nat n") simp_all
  then show ?thesis by (auto simp: is_digit_def)
qed

lemma str_int_inj: "str_int i = str_int j \<Longrightarrow> i = j"
proof -
  assume eq: "str_int i = str_int j"
  have ne: "CHR ''-'' # a \<noteq> str_nat n" for a n
    using str_nat_no_minus [of n] by (metis list.sel(1))
  show ?thesis
  proof (cases "i < 0")
    case True
    with eq ne have j: "j < 0" by (auto simp: str_int_def split: if_splits)
    with True eq have "nat (- i) = nat (- j)" by (auto simp: str_int_def dest: str_nat_inj)
    with True j show ?thesis by simp
  next
    case False
    with eq ne have j: "\<not> j < 0" by (auto simp: str_int_def split: if_splits) metis
    with False eq have "nat i = nat j" by (auto simp: str_int_def dest: str_nat_inj)
    with False j show ?thesis by simp
  qed
qed

lemma str_int_no_bar: "CHR ''|'' \<notin> set (str_int i)"
proof -
  have "CHR ''|'' \<notin> set (str_nat n)" for n
    using str_nat_digits [of n] by (auto simp: list_all_iff is_digit_def)
  then show ?thesis by (simp add: str_int_def)
qed

lemma split_at_last:
  assumes "xs @ c # ys = xs' @ c # ys'" "c \<notin> set ys" "c \<notin> set ys'"
  shows "xs = xs' \<and> ys = ys'"
proof -
  have r: "rev (takeWhile (\<lambda>d. d \<noteq> c) (rev (zs @ c # ws))) = ws" if "c \<notin> set ws" for zs ws
  proof -
    have a: "takeWhile (\<lambda>d. d \<noteq> c) (rev ws) = rev ws"
      using that by (induction ws) auto
    have b: "takeWhile (\<lambda>d. d \<noteq> c) (rev ws @ c # rev zs)
        = takeWhile (\<lambda>d. d \<noteq> c) (rev ws)"
      using takeWhile_tail [of "\<lambda>d. d \<noteq> c" c "rev ws" "rev zs"] by simp
    have e: "rev (zs @ c # ws) = rev ws @ c # rev zs" by simp
    show ?thesis by (simp only: e b a rev_rev_ident)
  qed
  from r [OF assms(2), of xs] r [OF assms(3), of xs'] assms(1) have "ys = ys'" by simp
  with assms(1) show ?thesis by simp
qed

lemma fingerprint_inj:
  "fingerprint p st d = fingerprint p' st' d' \<longleftrightarrow>
     p = p' \<and> st_size st = st_size st' \<and> st_mtime_ns st = st_mtime_ns st' \<and> d = d'"
proof
  assume eq: "fingerprint p st d = fingerprint p' st' d'"
  let ?S = "str_int (st_size st)" and ?M = "str_int (st_mtime_ns st)" and ?X = "str_int d"
  let ?S' = "str_int (st_size st')" and ?M' = "str_int (st_mtime_ns st')" and ?X' = "str_int d'"
  from eq have 1: "(p @ ''|'' @ ?S @ ''|'' @ ?M) @ CHR ''|'' # ?X
      = (p' @ ''|'' @ ?S' @ ''|'' @ ?M') @ CHR ''|'' # ?X'"
    by (simp add: fingerprint_def)
  from split_at_last [OF 1 str_int_no_bar str_int_no_bar]
  have x: "?X = ?X'" and 2: "(p @ ''|'' @ ?S) @ CHR ''|'' # ?M = (p' @ ''|'' @ ?S') @ CHR ''|'' # ?M'"
    by simp_all
  from split_at_last [OF 2 str_int_no_bar str_int_no_bar]
  have m: "?M = ?M'" and 3: "p @ CHR ''|'' # ?S = p' @ CHR ''|'' # ?S'"
    by simp_all
  from split_at_last [OF 3 str_int_no_bar str_int_no_bar]
  have "p = p'" "?S = ?S'" by simp_all
  with x m show "p = p' \<and> st_size st = st_size st' \<and> st_mtime_ns st = st_mtime_ns st' \<and> d = d'"
    by (auto dest: str_int_inj)
next
  assume "p = p' \<and> st_size st = st_size st' \<and> st_mtime_ns st = st_mtime_ns st' \<and> d = d'"
  then show "fingerprint p st d = fingerprint p' st' d'" by (simp add: fingerprint_def)
qed

lemma length_hex_word: "length (hex_word w) = 8"
  by (simp add: hex_word_def)

lemma length_sha256_hexdigest: "length (sha256_hexdigest msg) = 64"
  by (simp add: sha256_hexdigest_def length_hex_word split: prod.splits)

text \<open>
  The thumbnail cache key is a function of the resolved path, the file size, the modification
  time in nanoseconds and the requested dimension, so two calls with all four equal produce
  the same key: it is the SHA-256 digest, 64 hexadecimal characters, of the text
  \<open>path|size|mtime|dimension\<close>. Two inputs that differ in at least one of the four
  components have different texts. Whether their digests differ is a question about SHA-256
  that is left open here.
\<close>

lemma thumbnail_cache_key_fingerprint:
  "thumbnail_cache_key p st d = cache_key_of (p, st_size st, st_mtime_ns st, d) \<and>
   cache_key_of (p, s, m, d) =
     sha256_hexdigest (fingerprint p \<lparr>st_size = s, st_mtime_ns = m\<rparr> d) \<and>
   length (cache_key_of (p, s, m, d)) = 64 \<and>
   (fingerprint p \<lparr>st_size = s, st_mtime_ns = m\<rparr> d =
      fingerprint p' \<lparr>st_size = s', st_mtime_ns = m'\<rparr> d'
    \<longleftrightarrow> (p, s, m, d) = (p', s', m', d'))"
proof -
  have "thumbnail_cache_key p st d = cache_key_of (p, st_size st, st_mtime_ns st, d)"
    by (simp add: cache_key_of_def thumbnail_cache_key_def fingerprint_def)
  then show ?thesis
    by (simp add: cache_key_of_def thumbnail_cache_key_def length_sha256_hexdigest
          fingerprint_inj)
qed

subsection \<open>The SHA-256 model on a known digest\<close>

text \<open>
  The digest of \<open>abc\<close>, as the standard's examples and \<open>hashlib\<close> give it.
\<close>

lemma sha256_abc:
  "sha256_hexdigest ''abc'' = ''ba7816bf8f01cfea414140de5dae2223b00361a396177a9cb410ff61f20015ad''"
  by code_simp

subsection \<open>The paths of a directory tree are pairwise distinct\<close>

text \<open>
  The hypothesis \<open>snapshot_paths_distinct\<close> of the pagination property holds for every
  well-formed tree: a walked path is a non-empty list of plain names, two walked paths differ,
  and joining with the separator keeps them apart.
\<close>

lemma walk_images_names:
  "wf_tree e \<Longrightarrow> q \<in> set (walk_images pre e) \<Longrightarrow>
   \<exists>n rest. q = pre @ n # rest \<and> list_all plain_name (n # rest)
      \<and> (case e of Dir es \<Rightarrow> n \<in> fst ` set es
            \<and> (rest \<noteq> [] \<longrightarrow> (\<exists>d. (n, d) \<in> set es \<and> is_dir d))
            \<and> (rest = [] \<longrightarrow> (\<exists>d. (n, d) \<in> set es \<and> \<not> is_dir d)) | File _ \<Rightarrow> False)"
proof (induction pre e arbitrary: q rule: walk_images.induct)
  case (1 current_root sz)
  then show ?case by simp
next
  case (2 current_root es)
  let ?dirs = "sort_key (\<lambda>(name, e). lower name)
                 (filter (\<lambda>(name, e). is_dir e \<and> \<not> is_ignored_name name) es)"
  let ?files = "map fst (filter (\<lambda>(name, e). \<not> is_dir e) es)"
  from "2.prems"(2) consider
    (img) "q \<in> set (map (\<lambda>name. current_root @ [name]) (filter is_image_name (sort_key lower ?files)))"
    | (dir) n e where "(n, e) \<in> set ?dirs" "q \<in> set (walk_images (current_root @ [n]) e)"
    by (auto simp: Let_def)
  then show ?case
  proof cases
    case img
    then obtain n d where n: "q = current_root @ [n]" "(n, d) \<in> set es" "\<not> is_dir d"
      by auto
    with "2.prems"(1) have "plain_name n" by (auto simp: plain_name_def)
    with n show ?thesis by (auto simp: image_iff) (metis fst_conv)+
  next
    case (dir n e)
    then have mem: "(n, e) \<in> set es" and d: "is_dir e" by auto
    with "2.prems"(1) have wf: "wf_tree e" and pn: "plain_name n"
      by (auto simp: plain_name_def)
    from "2.IH" [OF refl refl dir(1) _ wf dir(2)]
    obtain m rest where q: "q = (current_root @ [n]) @ m # rest" "list_all plain_name (m # rest)"
      by auto
    with pn mem d show ?thesis
      by (auto simp: image_iff) (metis fst_conv)+
  qed
qed


lemma distinct_concat_tagged:
  assumes "distinct (map key xs)"
    and "\<And>x. x \<in> set xs \<Longrightarrow> distinct (f x)"
    and "\<And>x q. x \<in> set xs \<Longrightarrow> q \<in> set (f x) \<Longrightarrow> tag q = key x"
  shows "distinct (concat (map f xs))"
  using assms
proof (induction xs)
  case Nil
  then show ?case by simp
next
  case (Cons x xs)
  have "set (f x) \<inter> set (concat (map f xs)) = {}"
  proof (rule ccontr)
    assume "set (f x) \<inter> set (concat (map f xs)) \<noteq> {}"
    then obtain q y where q: "q \<in> set (f x)" "y \<in> set xs" "q \<in> set (f y)" by auto
    with Cons.prems(3) [of x q] Cons.prems(3) [of y q] have "key x = key y" by simp
    with q(2) Cons.prems(1) show False by auto
  qed
  moreover have "distinct (concat (map f xs))"
    using Cons.prems by (intro Cons.IH) auto
  ultimately show ?case using Cons.prems(2) [of x] by simp
qed

lemma distinct_names_sorted:
  "distinct (map fst es) \<Longrightarrow> distinct (map fst (sort_key k (filter P es)))"
proof -
  assume "distinct (map fst es)"
  then have "distinct (map fst (filter P es))" by (rule distinct_map_filter)
  moreover have "mset (map fst (sort_key k (filter P es))) = mset (map fst (filter P es))"
    by simp
  ultimately show ?thesis by (metis mset_eq_imp_distinct_iff)
qed

lemma walk_images_distinct: "wf_tree e \<Longrightarrow> distinct (walk_images pre e)"
proof (induction pre e rule: walk_images.induct)
  case (1 current_root sz)
  show ?case by simp
next
  case (2 current_root es)
  let ?dirs = "sort_key (\<lambda>(name, e). lower name)
                 (filter (\<lambda>(name, e). is_dir e \<and> \<not> is_ignored_name name) es)"
  let ?files = "map fst (filter (\<lambda>(name, e). \<not> is_dir e) es)"
  let ?imgs = "map (\<lambda>name. current_root @ [name]) (filter is_image_name (sort_key lower ?files))"
  let ?sub = "concat (map (\<lambda>(name, e). walk_images (current_root @ [name]) e) ?dirs)"
  from "2.prems" have dn: "distinct (map fst es)" by simp
  have "distinct ?files" using dn by (rule distinct_map_filter)
  then have "distinct (sort_key lower ?files)" by (simp only: distinct_sort)
  then have "distinct (filter is_image_name (sort_key lower ?files))" by (rule distinct_filter)
  moreover have "inj_on (\<lambda>name. current_root @ [name]) A" for A
    by (simp add: inj_on_def)
  ultimately have imgs: "distinct ?imgs" by (simp only: distinct_map simp_thms)
  have wf: "wf_tree e" if "(n, e) \<in> set ?dirs" for n e
    using that "2.prems" by auto
  have sub: "distinct ?sub"
  proof (rule distinct_concat_tagged [where key = fst and tag = "\<lambda>q. q ! length current_root"])
    show "distinct (map fst ?dirs)" using dn by (rule distinct_names_sorted)
  next
    fix x assume x: "x \<in> set ?dirs"
    obtain n e where ne: "x = (n, e)" by (cases x)
    from x ne have mem: "(n, e) \<in> set ?dirs" by simp
    from "2.IH" [OF refl refl mem refl wf [OF mem]] ne
    show "distinct ((\<lambda>(name, e). walk_images (current_root @ [name]) e) x)" by simp
  next
    fix x q assume x: "x \<in> set ?dirs"
      and q: "q \<in> set ((\<lambda>(name, e). walk_images (current_root @ [name]) e) x)"
    obtain n e where ne: "x = (n, e)" by (cases x)
    from walk_images_names [OF wf, of n e q "current_root @ [n]"] x q ne
    obtain m rest where "q = (current_root @ [n]) @ m # rest" by auto
    then show "q ! length current_root = fst x" by (simp add: ne nth_append)
  qed
  have "set ?imgs \<inter> set ?sub = {}"
  proof (rule ccontr)
    assume "set ?imgs \<inter> set ?sub \<noteq> {}"
    then obtain q where qi: "q \<in> set ?imgs" and qs: "q \<in> set ?sub" by blast
    from qs obtain x where x: "x \<in> set ?dirs"
      "q \<in> set ((\<lambda>(name, e). walk_images (current_root @ [name]) e) x)"
      unfolding set_concat set_map by blast
    obtain n e where ne: "x = (n, e)" by (cases x)
    from qi x ne have q: "q \<in> set ?imgs" "(n, e) \<in> set ?dirs"
      "q \<in> set (walk_images (current_root @ [n]) e)" by simp_all
    from walk_images_names [OF wf [OF q(2)] q(3)]
    obtain m rest where "q = (current_root @ [n]) @ m # rest" by auto
    then have "length q \<ge> length current_root + 2" by simp
    moreover from q(1) have "length q = length current_root + 1" by auto
    ultimately show False by simp
  qed
  with imgs sub show ?case by (simp add: Let_def)
qed

lemma split_on_plain:
  "CHR ''/'' \<notin> set seg \<Longrightarrow> split_on CHR ''/'' cur (seg @ CHR ''/'' # t) = (cur @ seg) # split_on CHR ''/'' [] t"
  "CHR ''/'' \<notin> set seg \<Longrightarrow> split_on CHR ''/'' cur seg = [cur @ seg]"
  by (induction seg arbitrary: cur) auto

lemma split_on_join:
  "list_all plain_name (n # rest) \<Longrightarrow> split_on CHR ''/'' [] (join_parts (n # rest)) = n # rest"
proof (induction rest arbitrary: n)
  case Nil
  then show ?case by (simp add: split_on_plain plain_name_def)
next
  case (Cons m rest)
  then have "split_on CHR ''/'' [] (join_parts (m # rest)) = m # rest" by simp
  with Cons.prems show ?case by (simp add: split_on_plain plain_name_def)
qed

lemma relative_str_join: "relative_str (n # rest) = join_parts (n # rest)"
  by (simp add: relative_str_def str_path_def replace_os_sep)

lemma join_parts_nonempty: "n \<noteq> [] \<Longrightarrow> join_parts (n # rest) \<noteq> []"
  by (cases rest) auto

lemma wf_tree_scan_paths:
  assumes "wf_tree tree"
  shows "distinct (scan_paths tree) \<and> [] \<notin> set (scan_paths tree)"
proof -
  let ?W = "walk_images [] tree"
  have shape: "\<exists>n rest. q = n # rest \<and> list_all plain_name (n # rest)" if "q \<in> set ?W" for q
    using walk_images_names [OF assms that] by auto
  have "inj_on relative_str (set ?W)"
  proof (rule inj_onI)
    fix p q assume p: "p \<in> set ?W" and q: "q \<in> set ?W" and eq: "relative_str p = relative_str q"
    from shape [OF p] obtain n rest where pn: "p = n # rest" "list_all plain_name (n # rest)" by auto
    from shape [OF q] obtain m others where qm: "q = m # others" "list_all plain_name (m # others)" by auto
    from eq have "join_parts (n # rest) = join_parts (m # others)"
      by (simp add: pn qm relative_str_join)
    then have "split_on CHR ''/'' [] (join_parts (n # rest)) = split_on CHR ''/'' [] (join_parts (m # others))"
      by simp
    with pn qm show "p = q" by (simp only: split_on_join)
  qed
  with walk_images_distinct [OF assms, of "[]"]
  have "distinct (map relative_str ?W)" by (simp add: distinct_map)
  moreover have "[] \<notin> relative_str ` set ?W"
  proof
    assume "[] \<in> relative_str ` set ?W"
    then obtain q where q: "q \<in> set ?W" "relative_str q = []" by auto
    from shape [OF q(1)] obtain n rest where nr: "q = n # rest" "n \<noteq> []"
      by (auto simp: plain_name_def)
    from q(2) have "join_parts (n # rest) = []" by (simp only: nr(1) relative_str_join)
    with join_parts_nonempty [OF nr(2)] show False by blast
  qed
  ultimately show ?thesis
    by (auto simp: scan_paths_def iter_images_recursive_def)
qed

lemma wf_tree_snapshot_paths_distinct:
  "wf_tree (disk root_path) \<Longrightarrow> snapshot_paths_distinct disk root_path"
  unfolding snapshot_paths_distinct_def by (rule wf_tree_scan_paths)

end
